theory Spec2Isabelle
  imports Complex_Main "HOL-Library.Word"
begin

section \<open>Sample buffers\<close>

text \<open>
  An \<open>AudioBuffer\<close> has a sample rate, a frame count (\<open>buffer.length\<close>) and one
  \<open>Float32Array\<close> per channel. A sample is given by its real value. The sample rate is a
  whole number of Hz.
\<close>

record audio_buffer =
  sampleRate :: nat
  frames :: nat
  channels :: "real list list"

definition numberOfChannels :: "audio_buffer \<Rightarrow> nat" where
  "numberOfChannels b = length (channels b)"

text \<open>
  What every buffer handed out by the audio context satisfies: at least one channel,
  at least one frame, a positive rate, and every channel as long as the frame count.
\<close>

definition wf_buffer :: "audio_buffer \<Rightarrow> bool" where
  "wf_buffer b \<longleftrightarrow>
     0 < sampleRate b \<and> 0 < frames b \<and> channels b \<noteq> [] \<and>
     list_all (\<lambda>c. length c = frames b) (channels b)"

datatype error = NotSupportedError | IndexSizeError | RangeError | TypeError | NonTermination

text \<open>
  The errors are the exceptions of the host; \<open>NonTermination\<close> stands for a loop that
  never ends.

  \<open>context.createBuffer(numberOfChannels, length, sampleRate)\<close> of the host, on arguments
  already converted to unsigned integers: a zero-filled buffer, and \<open>NotSupportedError\<close>
  for a zero channel count, length or rate. A real host refuses more: a length that it
  cannot allocate, and a rate or a channel count outside the range it supports. These
  limits differ from host to host and are not part of this definition. Slice and join
  pass on the rate and the channel counts of buffers that the host has made, or ask for
  one channel at 44100 Hz; where a result below says that slice returns a buffer, the
  buffer asked for has no more frames than the source.
\<close>

definition createBuffer :: "nat \<Rightarrow> nat \<Rightarrow> nat \<Rightarrow> error + audio_buffer" where
  "createBuffer n len rate =
     (if n = 0 \<or> len = 0 \<or> rate = 0 then Inl NotSupportedError
      else Inr \<lparr>sampleRate = rate, frames = len,
                channels = replicate n (replicate len 0)\<rparr>)"

text \<open>\<open>buffer.getChannelData(i)\<close>: \<open>IndexSizeError\<close> when the channel does not exist.\<close>

definition getChannelData :: "audio_buffer \<Rightarrow> nat \<Rightarrow> error + real list" where
  "getChannelData b i =
     (if i < numberOfChannels b then Inr (channels b ! i) else Inl IndexSizeError)"

text \<open>
  Reading a typed array at an integer index: \<open>undefined\<close> (here \<open>None\<close>) outside
  \<open>[0, length)\<close>, also at a negative index.
\<close>

definition typed_get :: "real list \<Rightarrow> int \<Rightarrow> real option" where
  "typed_get xs k = (if 0 \<le> k \<and> k < int (length xs) then Some (xs ! nat k) else None)"

text \<open>\<open>v || 0\<close> on a sample read: \<open>undefined\<close> and zero both give zero.\<close>

definition or_zero :: "real option \<Rightarrow> real" where
  "or_zero v = (case v of None \<Rightarrow> 0 | Some x \<Rightarrow> x)"

section \<open>Numbers\<close>

text \<open>
  A JavaScript number is a binary64 value: NaN, an infinity, or a finite double, which is
  given here by its real value. The sign of zero is not modelled; no operation below
  depends on it.
\<close>

datatype number = NaN | PInf | NInf | Num real

text \<open>
  Rounding of an exact result to binary64, to nearest with ties to even. \<open>quantum x\<close> is
  the spacing of the doubles at the magnitude of \<open>x\<close>: \<open>2 ^ (e - 52)\<close> where
  \<open>2 ^ e \<le> |x| < 2 ^ (e + 1)\<close>, and \<open>2 ^ -1074\<close> below the normal range. \<open>rnd x\<close> is the
  multiple of the quantum nearest to \<open>x\<close>, and a result of magnitude \<open>2 ^ 1024\<close> or more
  is an infinity.
\<close>

definition round_even :: "real \<Rightarrow> int" where
  "round_even x =
     (let f = \<lfloor>x\<rfloor>; d = x - of_int f
      in if d < 1/2 then f else if 1/2 < d then f + 1 else if even f then f else f + 1)"

definition quantum :: "real \<Rightarrow> real" where
  "quantum x = 2 powr real_of_int (max \<lfloor>log 2 \<bar>x\<bar>\<rfloor> (- 1022) - 52)"

definition rnd :: "real \<Rightarrow> real" where
  "rnd x = (if x = 0 then 0 else quantum x * of_int (round_even (x / quantum x)))"

definition round_double :: "real \<Rightarrow> number" where
  "round_double x =
     (let y = rnd x
      in if 2 ^ 1024 \<le> y then PInf else if y \<le> - (2 ^ 1024) then NInf else Num y)"

text \<open>Half of the smallest positive double: the absolute rounding error near zero.\<close>

definition tiny :: real where
  "tiny = 2 powr (- 1075)"

text \<open>The arithmetic operators \<open>+\<close>, \<open>-\<close> and \<open>*\<close>.\<close>

fun jneg :: "number \<Rightarrow> number" where
  "jneg (Num a) = Num (- a)"
| "jneg PInf = NInf"
| "jneg NInf = PInf"
| "jneg NaN = NaN"

fun jadd :: "number \<Rightarrow> number \<Rightarrow> number" where
  "jadd (Num a) (Num b) = round_double (a + b)"
| "jadd NaN b = NaN"
| "jadd a NaN = NaN"
| "jadd PInf NInf = NaN"
| "jadd NInf PInf = NaN"
| "jadd PInf b = PInf"
| "jadd a PInf = PInf"
| "jadd NInf b = NInf"
| "jadd a NInf = NInf"

definition jsub :: "number \<Rightarrow> number \<Rightarrow> number" where
  "jsub a b = jadd a (jneg b)"

fun is_negative :: "number \<Rightarrow> bool" where
  "is_negative (Num a) = (a < 0)"
| "is_negative NInf = True"
| "is_negative n = False"

fun jmul :: "number \<Rightarrow> number \<Rightarrow> number" where
  "jmul (Num a) (Num b) = round_double (a * b)"
| "jmul NaN b = NaN"
| "jmul a NaN = NaN"
| "jmul a b =
     (if a = Num 0 \<or> b = Num 0 then NaN
      else if is_negative a = is_negative b then PInf else NInf)"

text \<open>The comparisons \<open><\<close>, \<open><=\<close> and \<open>>=\<close>: false whenever an operand is NaN.\<close>

fun jlt :: "number \<Rightarrow> number \<Rightarrow> bool" where
  "jlt (Num a) (Num b) = (a < b)"
| "jlt NaN b = False"
| "jlt a NaN = False"
| "jlt a NInf = False"
| "jlt PInf b = False"
| "jlt a b = True"

definition jle :: "number \<Rightarrow> number \<Rightarrow> bool" where
  "jle a b \<longleftrightarrow> jlt a b \<or> (a = b \<and> a \<noteq> NaN)"


text \<open>\<open>Math.floor\<close>; the floor of a double is a double.\<close>

fun math_floor :: "number \<Rightarrow> number" where
  "math_floor (Num a) = Num (of_int \<lfloor>a\<rfloor>)"
| "math_floor n = n"

text \<open>
  The conversion of a number to an \<open>unsigned long\<close> argument of the host: NaN and the
  infinities give 0, a finite number is truncated toward zero and reduced modulo
  \<open>2 ^ 32\<close>.
\<close>

definition trunc :: "real \<Rightarrow> int" where
  "trunc x = (if x < 0 then \<lceil>x\<rceil> else \<lfloor>x\<rfloor>)"

fun to_uint32 :: "number \<Rightarrow> nat" where
  "to_uint32 (Num a) = nat (trunc a mod 2 ^ 32)"
| "to_uint32 n = 0"

text \<open>
  Reading a typed array at a number: \<open>undefined\<close> unless the number is a whole index
  inside the array.
\<close>

fun typed_get_num :: "real list \<Rightarrow> number \<Rightarrow> real option" where
  "typed_get_num xs (Num a) = (if a = of_int \<lfloor>a\<rfloor> then typed_get xs \<lfloor>a\<rfloor> else None)"
| "typed_get_num xs n = None"

text \<open>
  How often the body of \<open>for (let j = 0; j < n; j++)\<close> runs. The counter is a double
  and stops growing at \<open>2 ^ 53\<close>, so the loop never ends for a larger bound.
\<close>

fun loop_count :: "number \<Rightarrow> nat option" where
  "loop_count (Num a) = (if 2 ^ 53 < a then None else Some (nat \<lceil>a\<rceil>))"
| "loop_count PInf = None"
| "loop_count n = Some 0"

text \<open>
  \<open>AudioBuffer.duration\<close>: the length in seconds, the double quotient of the frame count
  and the rate.
\<close>

definition buffer_duration :: "audio_buffer \<Rightarrow> number" where
  "buffer_duration b =
     (if sampleRate b = 0 then PInf
      else round_double (real (frames b) / real (sampleRate b)))"

section \<open>Slice\<close>

text \<open>
  The inner loop of \<open>sliceAudioBuffer\<close>:
  \<open>newChannelData[j] = channelData[startSample + j] || 0\<close>, for \<open>count\<close> values of \<open>j\<close>.
  A write past the end of a typed array does nothing, as a list update past the end.
\<close>

definition copy_slice :: "real list \<Rightarrow> number \<Rightarrow> nat \<Rightarrow> real list \<Rightarrow> real list" where
  "copy_slice channelData startSample count newChannelData =
     fold (\<lambda>j nd. nd[j := or_zero (typed_get_num channelData
                                      (jadd startSample (Num (real j))))])
       [0..<count] newChannelData"

text \<open>The outer loop over the channels; each step reads both buffers' channel \<open>i\<close>.\<close>

fun slice_channels ::
  "audio_buffer \<Rightarrow> number \<Rightarrow> nat \<Rightarrow> nat list \<Rightarrow> audio_buffer \<Rightarrow> error + audio_buffer" where
  "slice_channels buffer startSample count [] newBuffer = Inr newBuffer"
| "slice_channels buffer startSample count (i # is) newBuffer =
     (case getChannelData buffer i of
        Inl e \<Rightarrow> Inl e
      | Inr channelData \<Rightarrow>
          (case getChannelData newBuffer i of
             Inl e \<Rightarrow> Inl e
           | Inr newChannelData \<Rightarrow>
               slice_channels buffer startSample count is
                 (newBuffer\<lparr>channels :=
                    (channels newBuffer)
                      [i := copy_slice channelData startSample count newChannelData]\<rparr>)))"

text \<open>
  \<open>sliceAudioBuffer\<close>. The times are numbers; the products, the floors and their
  difference are those of the doubles. The frame count reaches \<open>createBuffer\<close> through
  the conversion to an unsigned integer.
\<close>

definition sliceAudioBuffer ::
  "audio_buffer \<Rightarrow> number \<Rightarrow> number \<Rightarrow> error + audio_buffer" where
  "sliceAudioBuffer buffer start endT =
     (let sampleRate = sampleRate buffer;
          startSample = math_floor (jmul start (Num (real sampleRate)));
          endSample = math_floor (jmul endT (Num (real sampleRate)));
          frameCount = jsub endSample startSample
      in if jle frameCount (Num 0) then createBuffer (numberOfChannels buffer) 1 sampleRate
         else
           (case createBuffer (numberOfChannels buffer) (to_uint32 frameCount) sampleRate of
              Inl e \<Rightarrow> Inl e
            | Inr newBuffer \<Rightarrow>
                (case loop_count frameCount of
                   None \<Rightarrow> Inl NonTermination
                 | Some count \<Rightarrow>
                     slice_channels buffer startSample count
                       [0..<numberOfChannels buffer] newBuffer)))"

text \<open>The samples that \<open>count\<close> steps of the inner loop read from \<open>startSample\<close> on.\<close>

definition slice_samples :: "real list \<Rightarrow> number \<Rightarrow> nat \<Rightarrow> real list" where
  "slice_samples channelData startSample count =
     map (\<lambda>j. or_zero (typed_get_num channelData (jadd startSample (Num (real j)))))
       [0..<count]"

section \<open>Join\<close>

text \<open>
  \<open>target.set(source, offset)\<close> on typed arrays: the source overwrites the target
  from \<open>offset\<close> on, and a source that does not fit raises \<open>RangeError\<close>.
\<close>

definition typed_set :: "real list \<Rightarrow> real list \<Rightarrow> nat \<Rightarrow> error + real list" where
  "typed_set target source offset =
     (if length target < offset + length source then Inl RangeError
      else Inr (take offset target @ source @ drop (offset + length source) target))"

text \<open>\<open>buffers.forEach\<close> for output channel \<open>i\<close>, threading the channel data and the offset.\<close>

fun join_channel ::
  "nat \<Rightarrow> audio_buffer list \<Rightarrow> real list \<Rightarrow> nat \<Rightarrow> error + real list" where
  "join_channel i [] channelData offset = Inr channelData"
| "join_channel i (buffer # buffers) channelData offset =
     (case (if i < numberOfChannels buffer then getChannelData buffer i
            else getChannelData buffer 0) of
        Inl e \<Rightarrow> Inl e
      | Inr sourceChannel \<Rightarrow>
          (case typed_set channelData sourceChannel offset of
             Inl e \<Rightarrow> Inl e
           | Inr channelData' \<Rightarrow>
               join_channel i buffers channelData' (offset + frames buffer)))"

fun join_channels ::
  "audio_buffer list \<Rightarrow> nat list \<Rightarrow> audio_buffer \<Rightarrow> error + audio_buffer" where
  "join_channels buffers [] newBuffer = Inr newBuffer"
| "join_channels buffers (i # is) newBuffer =
     (case getChannelData newBuffer i of
        Inl e \<Rightarrow> Inl e
      | Inr channelData \<Rightarrow>
          (case join_channel i buffers channelData 0 of
             Inl e \<Rightarrow> Inl e
           | Inr channelData' \<Rightarrow>
               join_channels buffers is
                 (newBuffer\<lparr>channels := (channels newBuffer)[i := channelData']\<rparr>)))"

text \<open>\<open>Math.max(...xs)\<close> on channel counts, and the \<open>reduce\<close> that sums the lengths.\<close>

definition math_max :: "nat list \<Rightarrow> nat" where
  "math_max xs = fold max xs 0"

definition total_length :: "audio_buffer list \<Rightarrow> nat" where
  "total_length buffers = fold (\<lambda>b acc. acc + frames b) buffers 0"

definition joinAudioBuffers :: "audio_buffer list \<Rightarrow> error + audio_buffer" where
  "joinAudioBuffers buffers =
     (if length buffers = 0 then createBuffer 1 1 44100
      else
        (let numberOfChannels = math_max (map numberOfChannels buffers);
             totalLength = total_length buffers;
             sampleRate = sampleRate (hd buffers)
         in case createBuffer numberOfChannels totalLength sampleRate of
              Inl e \<Rightarrow> Inl e
            | Inr newBuffer \<Rightarrow> join_channels buffers [0..<numberOfChannels] newBuffer))"

text \<open>The channel that \<open>joinAudioBuffers\<close> takes from an input for output channel \<open>i\<close>.\<close>

definition source_channel :: "nat \<Rightarrow> audio_buffer \<Rightarrow> real list" where
  "source_channel i b = (if i < numberOfChannels b then channels b ! i else channels b ! 0)"

section \<open>PCM encoder\<close>

text \<open>\<open>Math.max(-1, Math.min(1, x))\<close>.\<close>

definition clamp_sample :: "real \<Rightarrow> real" where
  "clamp_sample x = max (- 1) (min 1 x)"

text \<open>
  \<open>x | 0\<close>: the number is truncated toward zero (\<open>trunc\<close>) and wrapped to a signed
  32-bit integer.
\<close>

definition to_int32 :: "real \<Rightarrow> int" where
  "to_int32 x = sint (word_of_int (trunc x) :: 32 word)"

text \<open>
  \<open>(0.5 + sample < 0 ? sample * 32768 : sample * 32767) | 0\<close>. The comparison binds
  weaker than the sum: the test is \<open>(0.5 + sample) < 0\<close>.
\<close>

definition scale_sample :: "real \<Rightarrow> int" where
  "scale_sample sample =
     to_int32 (if 1/2 + sample < 0 then sample * 32768 else sample * 32767)"

definition pcm_sample :: "real \<Rightarrow> int" where
  "pcm_sample x = scale_sample (clamp_sample x)"

text \<open>
  The conversion in the words of the specification: clamp to \<open>[-1, 1]\<close>, scale by
  32767 when non-negative and by 32768 when negative, truncate toward zero.
\<close>

definition spec_pcm_sample :: "real \<Rightarrow> int" where
  "spec_pcm_sample x =
     (let c = clamp_sample x in trunc (if 0 \<le> c then c * 32767 else c * 32768))"

text \<open>
  The \<open>DataView\<close> over the output bytes. A write of little-endian bytes that does not
  fit raises \<open>RangeError\<close>; the value is reduced modulo the field width.
\<close>

definition le_bytes :: "nat \<Rightarrow> int \<Rightarrow> 8 word list" where
  "le_bytes n v = map (\<lambda>k. word_of_int (v div 256 ^ k)) [0..<n]"

definition view_write :: "8 word list \<Rightarrow> nat \<Rightarrow> 8 word list \<Rightarrow> error + 8 word list" where
  "view_write view pos bs =
     (if length view < pos + length bs then Inl RangeError
      else Inr (take pos view @ bs @ drop (pos + length bs) view))"

text \<open>The local helpers of \<open>bufferToWav\<close>: write at \<open>pos\<close> and advance it.\<close>

definition setUint16 :: "int \<Rightarrow> 8 word list \<times> nat \<Rightarrow> error + 8 word list \<times> nat" where
  "setUint16 data s =
     (case view_write (fst s) (snd s) (le_bytes 2 data) of
        Inl e \<Rightarrow> Inl e
      | Inr view \<Rightarrow> Inr (view, snd s + 2))"

definition setUint32 :: "int \<Rightarrow> 8 word list \<times> nat \<Rightarrow> error + 8 word list \<times> nat" where
  "setUint32 data s =
     (case view_write (fst s) (snd s) (le_bytes 4 data) of
        Inl e \<Rightarrow> Inl e
      | Inr view \<Rightarrow> Inr (view, snd s + 4))"

text \<open>Statements in sequence, stopping at the first exception.\<close>

fun run_writes ::
  "('s \<Rightarrow> error + 's) list \<Rightarrow> 's \<Rightarrow> error + 's" where
  "run_writes [] s = Inr s"
| "run_writes (w # ws) s = (case w s of Inl e \<Rightarrow> Inl e | Inr s' \<Rightarrow> run_writes ws s')"

definition wav_header ::
  "audio_buffer \<Rightarrow> nat \<Rightarrow> (8 word list \<times> nat \<Rightarrow> error + 8 word list \<times> nat) list" where
  "wav_header buffer len =
     (let numOfChan = int (numberOfChannels buffer) in
      [setUint32 0x46464952,
       setUint32 (int len - 8),
       setUint32 0x45564157,
       setUint32 0x20746d66,
       setUint32 16,
       setUint16 1,
       setUint16 numOfChan,
       setUint32 (int (sampleRate buffer)),
       setUint32 (int (sampleRate buffer) * 2 * numOfChan),
       setUint16 (numOfChan * 2),
       setUint16 16,
       setUint32 0x61746164,
       (\<lambda>s. setUint32 (int len - int (snd s) - 4) s)])"

text \<open>
  The inner loop over the channels for the frame at \<open>pos\<close>. A read past a channel's
  end is \<open>undefined\<close>, which the arithmetic turns into NaN and \<open>| 0\<close> into 0.
\<close>

fun wav_frame ::
  "real list list \<Rightarrow> nat \<Rightarrow> nat list \<Rightarrow> 8 word list \<times> nat \<Rightarrow> error + 8 word list \<times> nat" where
  "wav_frame chans pos [] s = Inr s"
| "wav_frame chans pos (i # is) s =
     (let sample = (case typed_get (chans ! i) (int pos) of
                      None \<Rightarrow> 0
                    | Some x \<Rightarrow> pcm_sample x)
      in case view_write (fst s) (44 + snd s) (le_bytes 2 sample) of
           Inl e \<Rightarrow> Inl e
         | Inr view \<Rightarrow> wav_frame chans pos is (view, snd s + 2))"

text \<open>
  \<open>while (pos < buffer.length)\<close>: \<open>pos\<close> is the variable the header writes advanced,
  and it indexes the frames here.
\<close>

function wav_data ::
  "audio_buffer \<Rightarrow> 8 word list \<Rightarrow> nat \<Rightarrow> nat \<Rightarrow> error + 8 word list" where
  "wav_data buffer view offset pos =
     (if pos < frames buffer then
        (case wav_frame (channels buffer) pos [0..<numberOfChannels buffer] (view, offset) of
           Inl e \<Rightarrow> Inl e
         | Inr s \<Rightarrow> wav_data buffer (fst s) (snd s) (pos + 1))
      else Inr view)"
  by pat_completeness auto
termination
  by (relation "measure (\<lambda>(buffer, view, offset, pos). frames buffer - pos)") auto

definition bufferToWav :: "audio_buffer \<Rightarrow> error + 8 word list" where
  "bufferToWav buffer =
     (let numOfChan = numberOfChannels buffer;
          len = frames buffer * numOfChan * 2 + 44
      in case run_writes (wav_header buffer len) (replicate len 0, 0) of
           Inl e \<Rightarrow> Inl e
         | Inr s \<Rightarrow> wav_data buffer (fst s) 0 (snd s))"

section \<open>Waveform peak reduction\<close>

text \<open>
  One step of the inner loop of the waveform drawing effect:
  \<open>if (datum < min) min = datum; if (datum > max) max = datum\<close>. A comparison with
  \<open>undefined\<close> is false, so a read past the end changes nothing.
\<close>

definition peak_step :: "real option \<Rightarrow> real \<times> real \<Rightarrow> real \<times> real" where
  "peak_step datum mm =
     (case datum of
        None \<Rightarrow> mm
      | Some d \<Rightarrow> (if d < fst mm then d else fst mm, if d > snd mm then d else snd mm))"

text \<open>Column \<open>i\<close>: \<open>min = 1.0\<close>, \<open>max = -1.0\<close>, then \<open>step\<close> reads from \<open>i * step\<close>.\<close>

definition column_peak :: "real list \<Rightarrow> nat \<Rightarrow> nat \<Rightarrow> real \<times> real" where
  "column_peak data step i =
     fold (\<lambda>j mm. peak_step (typed_get data (int (i * step + j))) mm) [0..<step] (1, - 1)"

text \<open>
  The \<open>(min, max)\<close> pairs for the columns \<open>0 \<le> i < containerWidth\<close>, over channel 0,
  with \<open>step = Math.ceil(data.length / containerWidth)\<close>. The width is a whole
  number of pixels; the effect draws nothing at width 0.
\<close>

definition waveform_peaks :: "real list \<Rightarrow> nat \<Rightarrow> (real \<times> real) list" where
  "waveform_peaks data containerWidth =
     (let step = nat \<lceil>real (length data) / real containerWidth\<rceil>
      in map (column_peak data step) [0..<containerWidth])"

section \<open>Selection and drag\<close>

record selection =
  sel_start :: real
  sel_end :: real

record audio_file =
  af_name :: string
  af_buffer :: audio_buffer
  af_duration :: real

datatype handle = DragStart | DragEnd

text \<open>
  \<open>handlePointerMove\<close>, with \<open>time\<close> the value of \<open>getPointerTime(e)\<close>. The result is
  the argument of \<open>onSelectionChange\<close>, and \<open>None\<close> when the handler returns early.
\<close>

definition handlePointerMove ::
  "handle option \<Rightarrow> audio_file option \<Rightarrow> selection \<Rightarrow> real \<Rightarrow> selection option" where
  "handlePointerMove isDragging audioFile selection time =
     (case isDragging of
        None \<Rightarrow> None
      | Some h \<Rightarrow>
          (case audioFile of
             None \<Rightarrow> None
           | Some af \<Rightarrow>
               (let minDuration = 1/10 in
                case h of
                  DragStart \<Rightarrow>
                    (let newStart = max 0 time;
                         newStart = (if newStart \<ge> sel_end selection - minDuration
                                     then sel_end selection - minDuration else newStart)
                     in Some (selection\<lparr>sel_start := newStart\<rparr>))
                | DragEnd \<Rightarrow>
                    (let newEnd = min (af_duration af) time;
                         newEnd = (if newEnd \<le> sel_start selection + minDuration
                                   then sel_start selection + minDuration else newEnd)
                     in Some (selection\<lparr>sel_end := newEnd\<rparr>)))))"

section \<open>Clip registry\<close>

record clip =
  clip_id :: string
  clip_name :: string
  clip_buffer :: audio_buffer
  clip_blob :: "8 word list option"

definition renameClip :: "clip list \<Rightarrow> string \<Rightarrow> string \<Rightarrow> clip list" where
  "renameClip clips i name =
     map (\<lambda>c. if clip_id c = i then c\<lparr>clip_name := name\<rparr> else c) clips"

definition deleteClip :: "clip list \<Rightarrow> string \<Rightarrow> clip list" where
  "deleteClip clips i = filter (\<lambda>c. clip_id c \<noteq> i) clips"

text \<open>\<open>Number.prototype.toString()\<close> on an integer: decimal digits, a minus sign first.\<close>

definition digit_char :: "nat \<Rightarrow> char" where
  "digit_char d = char_of (48 + d)"

fun toString_nat :: "nat \<Rightarrow> string" where
  "toString_nat n =
     (if n < 10 then [digit_char n] else toString_nat (n div 10) @ [digit_char (n mod 10)])"

declare toString_nat.simps [simp del]

definition toString :: "int \<Rightarrow> string" where
  "toString i = (if i < 0 then CHR ''-'' # toString_nat (nat (- i)) else toString_nat (nat i))"

text \<open>
  \<open>handleCut\<close> on the clip list. \<open>now\<close> is the reading of \<open>Date.now()\<close> and \<open>isoText\<close> the
  text of \<open>new Date().toISOString()\<close>; the download of the file is left out.
\<close>

definition handleCut ::
  "audio_file option \<Rightarrow> selection \<Rightarrow> int \<Rightarrow> string \<Rightarrow> clip list \<Rightarrow> error + clip list" where
  "handleCut mainAudio selection now isoText clips =
     (case mainAudio of
        None \<Rightarrow> Inr clips
      | Some af \<Rightarrow>
          (case sliceAudioBuffer (af_buffer af) (Num (sel_start selection))
                  (Num (sel_end selection)) of
             Inl e \<Rightarrow> Inl e
           | Inr newBuffer \<Rightarrow>
               (case bufferToWav newBuffer of
                  Inl e \<Rightarrow> Inl e
                | Inr blob \<Rightarrow>
                    (let timestamp =
                           map (\<lambda>c. if c = CHR '':'' then CHR ''-'' else c) (take 8 (drop 11 isoText));
                         originalName = takeWhile (\<lambda>c. c \<noteq> CHR ''.'') (af_name af);
                         newName = originalName @ ''_cut_'' @ timestamp;
                         newClip = \<lparr>clip_id = toString now, clip_name = newName,
                                    clip_buffer = newBuffer, clip_blob = Some blob\<rparr>
                     in Inr (clips @ [newClip])))))"

text \<open>The operations on the registry, and the registry after a run of them.\<close>

datatype registry_event =
  Cut audio_file selection int string
| Delete string
| Rename string string

fun apply_event :: "registry_event \<Rightarrow> clip list \<Rightarrow> clip list" where
  "apply_event (Cut af sel now isoText) clips =
     (case handleCut (Some af) sel now isoText clips of Inl e \<Rightarrow> clips | Inr clips' \<Rightarrow> clips')"
| "apply_event (Delete i) clips = deleteClip clips i"
| "apply_event (Rename i name) clips = renameClip clips i name"

definition run_events :: "registry_event list \<Rightarrow> clip list" where
  "run_events evs = fold apply_event evs []"

fun cut_times :: "registry_event list \<Rightarrow> int list" where
  "cut_times [] = []"
| "cut_times (Cut af sel now isoText # evs) = now # cut_times evs"
| "cut_times (ev # evs) = cut_times evs"

section \<open>Playback\<close>

text \<open>
  \<open>source.start(0, offset, duration)\<close>: the source plays from \<open>offset\<close> for \<open>duration\<close>
  seconds. The host raises \<open>TypeError\<close> on an argument that is not finite and
  \<open>RangeError\<close> on a negative one. What reaches the audio output is kept as a log of the
  sources started and stopped.
\<close>

record source_node =
  node_offset :: real
  node_duration :: real

datatype audio_event = Start source_node | Stop


record player =
  mainAudio :: "audio_file option"
  isPlaying :: bool
  currentTime :: number
  selection :: selection
  sourceNodeRef :: "source_node option"
  startTimeRef :: number
  pauseTimeRef :: number
  animationFrameRef :: nat
  audioLog :: "audio_event list"




text \<open>Example inputs for the instances below.\<close>

definition demo_buffer :: audio_buffer where
  "demo_buffer = \<lparr>sampleRate = 10, frames = 4, channels = [[1/2, -1/4, 1/8, 1]]\<rparr>"

definition demo_stereo :: audio_buffer where
  "demo_stereo = \<lparr>sampleRate = 8, frames = 2, channels = [[1/4, 1/2], [-1/4, -1/2]]\<rparr>"

text \<open>A header write that moves \<open>pos\<close> on by \<open>k\<close> bytes whenever \<open>k\<close> bytes are left.\<close>

definition advances :: "(8 word list \<times> nat \<Rightarrow> error + 8 word list \<times> nat) \<Rightarrow> nat \<Rightarrow> bool" where
  "advances w k \<longleftrightarrow>
     (\<forall>s. snd s + k \<le> length (fst s) \<longrightarrow>
        (\<exists>v. w s = Inr (v, snd s + k) \<and> length v = length (fst s)))"

definition demo_file :: audio_file where
  "demo_file = \<lparr>af_name = ''song.mp3'', af_buffer = demo_buffer, af_duration = 2/5\<rparr>"

definition demo_clip :: clip where
  "demo_clip = \<lparr>clip_id = ''17'', clip_name = ''song_cut_10-20-30'',
     clip_buffer = demo_buffer, clip_blob = None\<rparr>"


text \<open>One second at 8000 Hz: half a second at 0.25, then half a second at -0.5.\<close>

definition demo_tone :: audio_buffer where
  "demo_tone = \<lparr>sampleRate = 8000, frames = 8000,
     channels = [replicate 4000 (1/4) @ replicate 4000 (- 1/2)]\<rparr>"

definition demo_track :: audio_file where
  "demo_track = \<lparr>af_name = ''tone.wav'', af_buffer = demo_tone, af_duration = 1\<rparr>"

text \<open>The samples of column \<open>i\<close>'s window \<open>[i * step, (i + 1) * step)\<close> that exist in the buffer.\<close>

definition window :: "real list \<Rightarrow> nat \<Rightarrow> nat \<Rightarrow> real set" where
  "window data containerWidth i =
     (let step = nat \<lceil>real (length data) / real containerWidth\<rceil>
      in set (take step (drop (i * step) data)))"

section \<open>List updates and buffers\<close>

lemma fold_update_prefix:
  "m \<le> length xs \<Longrightarrow> fold (\<lambda>j nd. nd[j := f j]) [0..<m] xs = map f [0..<m] @ drop m xs"
proof (induction m)
  case 0
  then show ?case by simp
next
  case (Suc m)
  then have "fold (\<lambda>j nd. nd[j := f j]) [0..<Suc m] xs = (map f [0..<m] @ drop m xs)[m := f m]"
    by simp
  also have "\<dots> = map f [0..<m] @ (drop m xs)[0 := f m]"
    by (simp add: list_update_append)
  also have "(drop m xs)[0 := f m] = f m # drop (Suc m) xs"
    using Suc.prems by (cases "drop m xs") (auto simp: drop_Suc drop_tl)
  finally show ?case by simp
qed

lemma fold_update_all:
  "length xs = n \<Longrightarrow> fold (\<lambda>j nd. nd[j := f j]) [0..<n] xs = map f [0..<n]"
  using fold_update_prefix [of n xs f] by simp

lemma createBuffer_ok:
  "0 < n \<Longrightarrow> 0 < len \<Longrightarrow> 0 < rate \<Longrightarrow>
   createBuffer n len rate =
     Inr \<lparr>sampleRate = rate, frames = len, channels = replicate n (replicate len 0)\<rparr>"
  by (simp add: createBuffer_def)

section \<open>Properties of join\<close>

lemma math_max_fold: "fold max xs (a::nat) = Max (insert a (set xs))"
proof (induction xs arbitrary: a)
  case Nil
  then show ?case by simp
next
  case (Cons x xs)
  have "Max (insert (max x a) (set xs)) = Max (insert a (insert x (set xs)))"
    by (cases "set xs = {}") (simp_all add: max.commute max.left_commute max.assoc)
  with Cons show ?case by simp
qed

lemma math_max_Max: "xs \<noteq> [] \<Longrightarrow> math_max xs = Max (set xs)"
  unfolding math_max_def math_max_fold
  by (cases xs) (simp_all add: max_def)

lemma fold_add_frames: "fold (\<lambda>b acc. acc + frames b) bs a = a + sum_list (map frames bs)"
  by (induction bs arbitrary: a) simp_all

lemma total_length_sum: "total_length bs = sum_list (map frames bs)"
  by (simp add: total_length_def fold_add_frames)

lemma source_channel_length:
  "wf_buffer b \<Longrightarrow> length (source_channel i b) = frames b"
  by (auto simp: wf_buffer_def source_channel_def list_all_length numberOfChannels_def)

lemma join_channel_ok:
  "list_all wf_buffer bs \<Longrightarrow>
   off + sum_list (map frames bs) \<le> length cd \<Longrightarrow>
   join_channel i bs cd off =
     Inr (take off cd @ concat (map (source_channel i) bs)
          @ drop (off + sum_list (map frames bs)) cd)"
proof (induction bs arbitrary: cd off)
  case Nil
  then show ?case by simp
next
  case (Cons b bs)
  let ?src = "source_channel i b"
  let ?cd = "take off cd @ ?src @ drop (off + frames b) cd"
  from Cons.prems have wf: "wf_buffer b" and rest: "list_all wf_buffer bs" by simp_all
  have len: "length ?src = frames b" using wf by (rule source_channel_length)
  from wf have ch: "0 < numberOfChannels b"
    by (simp add: wf_buffer_def numberOfChannels_def)
  have get: "(if i < numberOfChannels b then getChannelData b i else getChannelData b 0)
      = Inr ?src"
    using ch by (simp add: getChannelData_def source_channel_def)
  have set: "typed_set cd ?src off = Inr ?cd"
    using Cons.prems(2) len by (simp add: typed_set_def)
  have step: "join_channel i (b # bs) cd off = join_channel i bs ?cd (off + frames b)"
    unfolding join_channel.simps get using set by simp
  have fit: "(off + frames b) + sum_list (map frames bs) \<le> length ?cd"
    using Cons.prems(2) len by simp
  have tk: "take (off + frames b) ?cd = take off cd @ ?src"
    using Cons.prems(2) len by simp
  have dr: "drop (off + frames b + sum_list (map frames bs)) ?cd
      = drop (off + (frames b + sum_list (map frames bs))) cd"
    using Cons.prems(2) len by (simp add: add.assoc add.commute add.left_commute)
  show ?case
    unfolding step Cons.IH [OF rest fit] tk dr by simp
qed

lemma join_channel_full:
  "list_all wf_buffer bs \<Longrightarrow> length cd = sum_list (map frames bs) \<Longrightarrow>
   join_channel i bs cd 0 = Inr (concat (map (source_channel i) bs))"
  using join_channel_ok [of bs 0 cd i] by simp

lemma join_channels_ok:
  "list_all wf_buffer bs \<Longrightarrow>
   \<forall>i\<in>set is. i < length (channels nb) \<Longrightarrow>
   list_all (\<lambda>c. length c = sum_list (map frames bs)) (channels nb) \<Longrightarrow>
   join_channels bs is nb =
     Inr (nb\<lparr>channels :=
       fold (\<lambda>i cs. cs[i := concat (map (source_channel i) bs)]) is (channels nb)\<rparr>)"
proof (induction "is" arbitrary: nb)
  case Nil
  then show ?case by simp
next
  case (Cons i "is")
  let ?c = "concat (map (source_channel i) bs)"
  let ?nb = "nb\<lparr>channels := (channels nb)[i := ?c]\<rparr>"
  from Cons.prems have i: "i < length (channels nb)" by simp
  with Cons.prems(3) have len: "length (channels nb ! i) = sum_list (map frames bs)"
    by (simp add: list_all_length)
  have clen: "length ?c = sum_list (map frames bs)"
    using Cons.prems(1)
    by (induction bs) (simp_all add: source_channel_length)
  have step: "join_channels bs (i # is) nb = join_channels bs is ?nb"
    using i join_channel_full [OF Cons.prems(1) len]
    by (simp add: getChannelData_def numberOfChannels_def)
  have all: "list_all (\<lambda>c. length c = sum_list (map frames bs)) (channels ?nb)"
    using Cons.prems(3) i clen by (auto simp: list_all_length nth_list_update)
  have idx: "\<forall>i\<in>set is. i < length (channels ?nb)"
    using Cons.prems(2) by simp
  show ?case
    unfolding step using Cons.IH [OF Cons.prems(1) idx all] by simp
qed

lemma join_nonempty:
  assumes wf: "list_all wf_buffer bs" and ne: "bs \<noteq> []"
  shows "joinAudioBuffers bs =
     Inr \<lparr>sampleRate = sampleRate (hd bs),
          frames = sum_list (map frames bs),
          channels = map (\<lambda>i. concat (map (source_channel i) bs))
            [0..<Max (set (map numberOfChannels bs))]\<rparr>"
proof -
  let ?n = "Max (set (map numberOfChannels bs))"
  let ?len = "sum_list (map frames bs)"
  let ?nb = "\<lparr>sampleRate = sampleRate (hd bs), frames = ?len,
     channels = replicate ?n (replicate ?len 0)\<rparr>"
  from ne obtain b bs' where bs: "bs = b # bs'" by (cases bs) auto
  with wf have wfb: "wf_buffer b" by simp
  then have "0 < numberOfChannels b" "0 < frames b" "0 < sampleRate b"
    by (simp_all add: wf_buffer_def numberOfChannels_def)
  then have pos: "0 < ?n" "0 < ?len" "0 < sampleRate (hd bs)"
    unfolding bs by (simp_all add: Max_gr_iff)
  have mm: "math_max (map numberOfChannels bs) = ?n"
    using ne by (simp add: math_max_Max)
  have cb: "createBuffer ?n ?len (sampleRate (hd bs)) = Inr ?nb"
    using pos by (rule createBuffer_ok)
  have jc: "join_channels bs [0..<?n] ?nb =
      Inr (?nb\<lparr>channels := fold (\<lambda>i cs. cs[i := concat (map (source_channel i) bs)])
         [0..<?n] (channels ?nb)\<rparr>)"
    using wf by (intro join_channels_ok) (simp_all add: list_all_length)
  have fd: "fold (\<lambda>i cs. cs[i := concat (map (source_channel i) bs)]) [0..<?n] (channels ?nb)
      = map (\<lambda>i. concat (map (source_channel i) bs)) [0..<?n]"
    by (rule fold_update_all) simp
  have "joinAudioBuffers bs = join_channels bs [0..<?n] ?nb"
    using ne cb mm by (simp add: joinAudioBuffers_def Let_def total_length_sum)
  then show ?thesis unfolding jc fd by simp
qed


text \<open>
  C8. Joining the singleton list of a well-formed buffer returns that buffer: the same
  channel count, frame count, sample rate and samples.
\<close>

theorem join_singleton:
  "wf_buffer a \<Longrightarrow> joinAudioBuffers [a] = Inr a"
proof -
  assume wf: "wf_buffer a"
  then have "list_all wf_buffer [a]" by simp
  from join_nonempty [OF this] have
    "joinAudioBuffers [a] = Inr \<lparr>sampleRate = sampleRate a, frames = frames a,
        channels = map (\<lambda>i. source_channel i a) [0..<numberOfChannels a]\<rparr>"
    by simp
  moreover have "map (\<lambda>i. source_channel i a) [0..<numberOfChannels a] = channels a"
    by (rule nth_equalityI) (simp_all add: source_channel_def numberOfChannels_def)
  ultimately show ?thesis by simp
qed


theorem join_singleton_witness:
  "wf_buffer demo_stereo \<and> joinAudioBuffers [demo_stereo] = Inr demo_stereo"
proof -
  have "wf_buffer demo_stereo" by (simp add: wf_buffer_def demo_stereo_def)
  with join_singleton [of demo_stereo] show ?thesis by simp
qed

section \<open>The encoder always returns\<close>

lemma length_le_bytes: "length (le_bytes n v) = n"
  by (simp add: le_bytes_def)

lemma view_write_fits:
  "pos + length bs \<le> length view \<Longrightarrow>
   \<exists>v. view_write view pos bs = Inr v \<and> length v = length view"
  by (simp add: view_write_def)

lemma advances_setUint16: "advances (setUint16 d) 2"
  unfolding advances_def setUint16_def
  using view_write_fits [where bs = "le_bytes 2 d"]
  by (fastforce simp: length_le_bytes)

lemma advances_setUint32: "advances (setUint32 d) 4"
  unfolding advances_def setUint32_def
  using view_write_fits [where bs = "le_bytes 4 d"]
  by (fastforce simp: length_le_bytes)

lemma advances_setUint32_pos: "advances (\<lambda>s. setUint32 (f s) s) 4"
  unfolding advances_def setUint32_def
proof (intro allI impI)
  fix s :: "8 word list \<times> nat"
  assume "snd s + 4 \<le> length (fst s)"
  then obtain v where "view_write (fst s) (snd s) (le_bytes 4 (f s)) = Inr v"
      "length v = length (fst s)"
    using view_write_fits [of "snd s" "le_bytes 4 (f s)" "fst s"]
    by (auto simp: length_le_bytes)
  then show "\<exists>v. (case view_write (fst s) (snd s) (le_bytes 4 (f s)) of
        Inl e \<Rightarrow> Inl e | Inr view \<Rightarrow> Inr (view, snd s + 4)) = Inr (v, snd s + 4)
      \<and> length v = length (fst s)"
    by simp
qed

lemma run_writes_advances:
  "list_all2 advances ws ks \<Longrightarrow> snd s + sum_list ks \<le> length (fst s) \<Longrightarrow>
   \<exists>v. run_writes ws s = Inr (v, snd s + sum_list ks) \<and> length v = length (fst s)"
proof (induction ws ks arbitrary: s rule: list_all2_induct)
  case Nil
  then show ?case by (cases s) simp
next
  case (Cons w ws k ks)
  from Cons.prems have "snd s + k \<le> length (fst s)" by simp
  with Cons.hyps(1) obtain v where v: "w s = Inr (v, snd s + k)" "length v = length (fst s)"
    unfolding advances_def by blast
  from Cons.prems v(2) have "snd (v, snd s + k) + sum_list ks \<le> length (fst (v, snd s + k))"
    by simp
  from Cons.IH [OF this] v show ?case by (simp add: add.assoc)
qed

lemma wav_header_runs:
  assumes "44 \<le> len"
  shows "\<exists>v. run_writes (wav_header b len) (replicate len 0, 0) = Inr (v, 44) \<and> length v = len"
proof -
  have "list_all2 advances (wav_header b len) [4, 4, 4, 4, 4, 2, 2, 4, 4, 2, 2, 4, 4]"
    unfolding wav_header_def Let_def
    by (simp add: advances_setUint16 advances_setUint32 advances_setUint32_pos)
  from run_writes_advances [OF this, of "(replicate len 0, 0)"] assms
  show ?thesis by simp
qed

lemma wav_frame_runs:
  "44 + off + 2 * length is \<le> length view \<Longrightarrow>
   \<exists>v. wav_frame chans pos is (view, off) = Inr (v, off + 2 * length is)
      \<and> length v = length view"
proof (induction "is" arbitrary: view off)
  case Nil
  then show ?case by simp
next
  case (Cons i "is")
  let ?sample = "case typed_get (chans ! i) (int pos) of None \<Rightarrow> 0 | Some x \<Rightarrow> pcm_sample x"
  from Cons.prems obtain v where v: "view_write view (44 + off) (le_bytes 2 ?sample) = Inr v"
      "length v = length view"
    using view_write_fits [of "44 + off" "le_bytes 2 ?sample" view]
    by (auto simp: length_le_bytes)
  from Cons.prems v(2) have "44 + (off + 2) + 2 * length is \<le> length v" by simp
  from Cons.IH [OF this] v show ?case by (simp add: Let_def)
qed

lemma wav_data_runs:
  "44 + off + 2 * numberOfChannels b * (frames b - pos) \<le> length view \<Longrightarrow>
   \<exists>v. wav_data b view off pos = Inr v \<and> length v = length view"
proof (induction b view off pos rule: wav_data.induct)
  case (1 buffer view offset pos)
  let ?n = "numberOfChannels buffer"
  show ?case
  proof (cases "pos < frames buffer")
    case False
    then show ?thesis by (simp add: wav_data.simps [of buffer view offset pos])
  next
    case True
    then have split: "frames buffer - pos = Suc (frames buffer - (pos + 1))" by simp
    have room: "44 + offset + 2 * ?n + 2 * ?n * (frames buffer - (pos + 1)) \<le> length view"
      using "1.prems" unfolding split by simp
    then have "44 + offset + 2 * length [0..<?n] \<le> length view" by simp
    from wav_frame_runs [OF this] obtain v where
      v: "wav_frame (channels buffer) pos [0..<?n] (view, offset) = Inr (v, offset + 2 * ?n)"
        "length v = length view"
      by auto
    have "44 + snd (v, offset + 2 * ?n) + 2 * ?n * (frames buffer - (pos + 1))
        \<le> length (fst (v, offset + 2 * ?n))"
      using room v(2) by simp
    from "1.IH" [OF True v(1) this] obtain v' where
      "wav_data buffer v (offset + 2 * ?n) (pos + 1) = Inr v'" "length v' = length view"
      using v(2) by auto
    then show ?thesis
      using True v(1) by (simp add: wav_data.simps [of buffer view offset pos])
  qed
qed

lemma bufferToWav_total:
  "\<exists>bytes. bufferToWav b = Inr bytes
     \<and> length bytes = frames b * numberOfChannels b * 2 + 44"
proof -
  let ?len = "frames b * numberOfChannels b * 2 + 44"
  obtain v where v: "run_writes (wav_header b ?len) (replicate ?len 0, 0) = Inr (v, 44)"
      "length v = ?len"
    using wav_header_runs [of ?len b] by auto
  have "2 * numberOfChannels b * (frames b - 44) \<le> frames b * numberOfChannels b * 2"
    by (simp add: mult.commute mult.left_commute)
  then have "44 + 0 + 2 * numberOfChannels b * (frames b - 44) \<le> length v"
    using v(2) by simp
  from wav_data_runs [OF this] obtain bytes where
    "wav_data b v 0 44 = Inr bytes" "length bytes = length v"
    by auto
  with v show ?thesis by (simp add: bufferToWav_def Let_def)
qed

section \<open>Sample conversion, drag and rename\<close>

text \<open>
  C1. The claim: every sample is clamped to \<open>[-1, 1]\<close>, scaled by 32767 when
  non-negative and by 32768 when negative, and truncated toward zero. The encoder
  tests \<open>0.5 + sample < 0\<close>, so a sample in \<open>[-0.5, 0)\<close> is scaled by 32767: at
  \<open>-0.25\<close> it writes \<open>-8191\<close>, where the stated rule gives \<open>-8192\<close>.
\<close>

theorem pcm_sample_quarter:
  "pcm_sample (- 1/4) = - 8191 \<and> spec_pcm_sample (- 1/4) = - 8192"
proof -
  have c: "clamp_sample (- 1/4) = - 1/4" by (simp add: clamp_sample_def)
  have t: "trunc (- (32767 / 4)) = - 8191"
    unfolding trunc_def by (simp add: ceiling_unique)
  have "pcm_sample (- 1/4) = - 8191"
    unfolding pcm_sample_def c scale_sample_def to_int32_def using t by simp
  moreover have "spec_pcm_sample (- 1/4) = - 8192"
    unfolding spec_pcm_sample_def c Let_def trunc_def by simp
  ultimately show ?thesis by simp
qed

text \<open>
  C6. A pointer move while the start handle is dragged sets the start to
  \<open>min (max 0 t) (end - 0.1)\<close>, which is \<open>end - 0.1\<close> for every \<open>t > end - 0.1\<close>; while
  the end handle is dragged it sets the end to \<open>max (min duration t) (start + 0.1)\<close>.
  The boundary that is not dragged keeps its value.
\<close>

theorem drag_resolution:
  "handlePointerMove (Some DragStart) (Some af) sel t =
      Some (sel\<lparr>sel_start := min (max 0 t) (sel_end sel - 1/10)\<rparr>)
   \<and> (sel_end sel - 1/10 < t \<longrightarrow>
        handlePointerMove (Some DragStart) (Some af) sel t =
          Some (sel\<lparr>sel_start := sel_end sel - 1/10\<rparr>))
   \<and> handlePointerMove (Some DragEnd) (Some af) sel t =
      Some (sel\<lparr>sel_end := max (min (af_duration af) t) (sel_start sel + 1/10)\<rparr>)
   \<and> (t < sel_start sel + 1/10 \<longrightarrow>
        handlePointerMove (Some DragEnd) (Some af) sel t =
          Some (sel\<lparr>sel_end := sel_start sel + 1/10\<rparr>))
   \<and> (\<forall>sel'. handlePointerMove (Some DragStart) (Some af) sel t = Some sel'
          \<longrightarrow> sel_end sel' = sel_end sel)
   \<and> (\<forall>sel'. handlePointerMove (Some DragEnd) (Some af) sel t = Some sel'
          \<longrightarrow> sel_start sel' = sel_start sel)"
  by (auto simp: handlePointerMove_def Let_def min_def max_def)

theorem drag_resolution_witness:
  "(3 - 1/10 < (7::real))
   \<and> handlePointerMove (Some DragStart) (Some demo_file) \<lparr>sel_start = 1, sel_end = 3\<rparr> 7
        = Some \<lparr>sel_start = 29/10, sel_end = 3\<rparr>
   \<and> ((-2::real) < 1 + 1/10)
   \<and> handlePointerMove (Some DragEnd) (Some demo_file) \<lparr>sel_start = 1, sel_end = 3\<rparr> (-2)
        = Some \<lparr>sel_start = 1, sel_end = 11/10\<rparr>"
  using drag_resolution [of demo_file "\<lparr>sel_start = 1, sel_end = 3\<rparr>" 7]
    drag_resolution [of demo_file "\<lparr>sel_start = 1, sel_end = 3\<rparr>" "-2"]
  by simp

text \<open>
  C10. \<open>renameClip\<close> keeps the length and order of the list; a clip whose identifier
  matches gets the new name and keeps its identifier, buffer and blob; every other clip
  is unchanged; and when no identifier matches the list is returned as it was.
\<close>

theorem rename_frame:
  "length (renameClip cs i n) = length cs
   \<and> (\<forall>k<length cs.
        (clip_id (cs ! k) = i \<longrightarrow> renameClip cs i n ! k = (cs ! k)\<lparr>clip_name := n\<rparr>)
        \<and> (clip_id (cs ! k) \<noteq> i \<longrightarrow> renameClip cs i n ! k = cs ! k)
        \<and> clip_id (renameClip cs i n ! k) = clip_id (cs ! k)
        \<and> clip_buffer (renameClip cs i n ! k) = clip_buffer (cs ! k)
        \<and> clip_blob (renameClip cs i n ! k) = clip_blob (cs ! k))
   \<and> ((\<forall>c\<in>set cs. clip_id c \<noteq> i) \<longrightarrow> renameClip cs i n = cs)"
proof (intro conjI allI impI)
  show "length (renameClip cs i n) = length cs" by (simp add: renameClip_def)
next
  assume "\<forall>c\<in>set cs. clip_id c \<noteq> i"
  then show "renameClip cs i n = cs"
    unfolding renameClip_def by (induction cs) simp_all
qed (simp_all add: renameClip_def)

theorem rename_frame_witness:
  "renameClip [demo_clip, demo_clip\<lparr>clip_id := ''18''\<rparr>] ''18'' ''intro''
     = [demo_clip, demo_clip\<lparr>clip_id := ''18'', clip_name := ''intro''\<rparr>]
   \<and> renameClip [demo_clip] ''99'' ''intro'' = [demo_clip]"
proof -
  let ?cs = "[demo_clip, demo_clip\<lparr>clip_id := ''18''\<rparr>]"
  from rename_frame [of ?cs "''18''" "''intro''"] have
    len: "length (renameClip ?cs ''18'' ''intro'') = 2"
    and k: "\<forall>k<length ?cs.
        (clip_id (?cs ! k) = ''18'' \<longrightarrow> renameClip ?cs ''18'' ''intro'' ! k = (?cs ! k)\<lparr>clip_name := ''intro''\<rparr>)
        \<and> (clip_id (?cs ! k) \<noteq> ''18'' \<longrightarrow> renameClip ?cs ''18'' ''intro'' ! k = ?cs ! k)"
    by simp_all
  from k [rule_format, of 0] k [rule_format, of 1] have
    "renameClip ?cs ''18'' ''intro'' ! 0 = demo_clip"
    "renameClip ?cs ''18'' ''intro'' ! 1 = demo_clip\<lparr>clip_id := ''18'', clip_name := ''intro''\<rparr>"
    by (simp_all add: demo_clip_def)
  with len have a: "renameClip ?cs ''18'' ''intro''
      = [demo_clip, demo_clip\<lparr>clip_id := ''18'', clip_name := ''intro''\<rparr>]"
    by (auto simp: length_Suc_conv numeral_2_eq_2)
  from rename_frame [of "[demo_clip]" "''99''" "''intro''"]
  have b: "renameClip [demo_clip] ''99'' ''intro'' = [demo_clip]"
    by (simp add: demo_clip_def)
  from a b show ?thesis by simp
qed

section \<open>Identifiers\<close>

lemma of_char_digit: "d < 10 \<Longrightarrow> of_char (digit_char d) = 48 + d"
  by (simp add: digit_char_def)

lemma digit_char_inj: "d < 10 \<Longrightarrow> d' < 10 \<Longrightarrow> digit_char d = digit_char d' \<Longrightarrow> d = d'"
proof -
  assume d: "d < 10" "d' < 10" and eq: "digit_char d = digit_char d'"
  from eq have "(of_char (digit_char d) :: nat) = of_char (digit_char d')" by simp
  with d show "d = d'" by (simp add: of_char_digit)
qed

lemma digit_char_not_minus: "d < 10 \<Longrightarrow> digit_char d \<noteq> CHR ''-''"
proof
  assume d: "d < 10" and eq: "digit_char d = CHR ''-''"
  from eq have "(of_char (digit_char d) :: nat) = of_char CHR ''-''" by simp
  with d show False by (simp add: of_char_digit)
qed

lemma toString_nat_nonempty: "toString_nat n \<noteq> []"
  by (subst toString_nat.simps) simp

lemma toString_nat_hd: "hd (toString_nat n) \<noteq> CHR ''-''"
proof (induction n rule: toString_nat.induct)
  case (1 n)
  show ?case
  proof (cases "n < 10")
    case True
    then show ?thesis
      by (subst toString_nat.simps) (simp add: digit_char_not_minus)
  next
    case False
    with "1.IH" show ?thesis
      by (subst toString_nat.simps) (simp add: toString_nat_nonempty)
  qed
qed

lemma toString_nat_inj: "toString_nat n = toString_nat m \<Longrightarrow> n = m"
proof (induction n arbitrary: m rule: toString_nat.induct)
  case (1 n)
  show ?case
  proof (cases "n < 10")
    case n: True
    show ?thesis
    proof (cases "m < 10")
      case True
      with n "1.prems" show ?thesis
        by (simp add: toString_nat.simps [of n] toString_nat.simps [of m] digit_char_inj)
    next
      case False
      with n "1.prems" toString_nat_nonempty [of "m div 10"] show ?thesis
        by (auto simp: toString_nat.simps [of n] toString_nat.simps [of m]
            append_eq_Cons_conv)
    qed
  next
    case n: False
    show ?thesis
    proof (cases "m < 10")
      case True
      with n "1.prems" toString_nat_nonempty [of "n div 10"] show ?thesis
        by (auto simp: toString_nat.simps [of n] toString_nat.simps [of m]
            Cons_eq_append_conv)
    next
      case False
      with n "1.prems" have eq: "toString_nat (n div 10) = toString_nat (m div 10)"
        and dg: "digit_char (n mod 10) = digit_char (m mod 10)"
        by (simp_all add: toString_nat.simps [of n] toString_nat.simps [of m])
      from "1.IH" [OF n eq] have "n div 10 = m div 10" .
      moreover from dg have "n mod 10 = m mod 10" by (intro digit_char_inj) simp_all
      ultimately show ?thesis by (metis div_mult_mod_eq)
    qed
  qed
qed

lemma toString_inj: "toString i = toString j \<Longrightarrow> i = j"
proof -
  assume eq: "toString i = toString j"
  consider "i < 0" "j < 0" | "i < 0" "\<not> j < 0" | "\<not> i < 0" "j < 0" | "\<not> i < 0" "\<not> j < 0"
    by blast
  then show "i = j"
  proof cases
    case 1
    with eq have "nat (- i) = nat (- j)" by (simp add: toString_def toString_nat_inj)
    with 1 show ?thesis by simp
  next
    case 2
    from eq have "hd (toString i) = hd (toString j)" by simp
    with 2 toString_nat_hd [of "nat j"] show ?thesis by (auto simp: toString_def)
  next
    case 3
    from eq have "hd (toString i) = hd (toString j)" by simp
    with 3 toString_nat_hd [of "nat i"] show ?thesis by (auto simp: toString_def)
  next
    case 4
    with eq have "nat i = nat j" by (simp add: toString_def toString_nat_inj)
    with 4 show ?thesis by simp
  qed
qed

section \<open>Properties of the peak reduction\<close>

lemma peak_step_Some: "peak_step (Some d) (a, b) = (min d a, max d b)"
  by (auto simp: peak_step_def min_def max_def)

lemma fold_peak_minmax:
  "fold (\<lambda>d. peak_step (Some d)) xs (a, b) = (Min (insert a (set xs)), Max (insert b (set xs)))"
proof (induction xs arbitrary: a b)
  case Nil
  then show ?case by simp
next
  case (Cons x xs)
  have mn: "Min (insert (min x a) (set xs)) = Min (insert a (insert x (set xs)))"
    by (cases "set xs = {}") (simp_all add: min.commute min.left_commute min.assoc)
  have mx: "Max (insert (max x b) (set xs)) = Max (insert b (insert x (set xs)))"
    by (cases "set xs = {}") (simp_all add: max.commute max.left_commute max.assoc)
  show ?case
    using Cons.IH [of "min x a" "max x b"] mn mx by (simp add: peak_step_Some)
qed

lemma fold_peak_window:
  "fold (\<lambda>j mm. peak_step (typed_get data (int (k + j))) mm) [0..<n] mm
     = fold (\<lambda>d. peak_step (Some d)) (take n (drop k data)) mm"
proof (induction n)
  case 0
  then show ?case by simp
next
  case (Suc n)
  show ?case
  proof (cases "k + n < length data")
    case True
    then have "take (Suc n) (drop k data) = take n (drop k data) @ [data ! (k + n)]"
      by (simp add: take_Suc_conv_app_nth)
    moreover from True have "typed_get data (int (k + n)) = Some (data ! (k + n))"
      by (simp add: typed_get_def nat_int_add)
    ultimately show ?thesis using Suc.IH by simp
  next
    case False
    then have "take (Suc n) (drop k data) = take n (drop k data)" by simp
    moreover from False have "typed_get data (int (k + n)) = None"
      by (simp add: typed_get_def)
    ultimately show ?thesis using Suc.IH by (simp add: peak_step_def)
  qed
qed

lemma column_peak_window:
  "column_peak data step i =
     (Min (insert 1 (set (take step (drop (i * step) data)))),
      Max (insert (- 1) (set (take step (drop (i * step) data)))))"
  unfolding column_peak_def fold_peak_window fold_peak_minmax ..

lemma Min_insert_upper:
  fixes W :: "real set"
  assumes "finite W" "W \<noteq> {}" "\<forall>x\<in>W. x \<le> u"
  shows "Min (insert u W) = Min W"
proof -
  have le: "Min W \<le> u" using assms by (meson Min_in)
  have "Min (insert u W) = min u (Min W)" using assms by simp
  with le show ?thesis by (metis min.absorb2)
qed

lemma Max_insert_lower:
  fixes W :: "real set"
  assumes "finite W" "W \<noteq> {}" "\<forall>x\<in>W. l \<le> x"
  shows "Max (insert l W) = Max W"
proof -
  have le: "l \<le> Max W" using assms by (meson Max_in)
  have "Max (insert l W) = max l (Max W)" using assms by simp
  with le show ?thesis by (metis max.absorb2)
qed

text \<open>
  C2, as the code has it. There is one pair per column \<open>i < width\<close>. With
  \<open>step = ceil (frameCount / width)\<close>, the pair is the minimum of 1.0 and the window's
  samples and the maximum of -1.0 and the window's samples, over the samples of
  \<open>[i * step, (i + 1) * step)\<close> that exist. For a window that holds a sample, of a buffer
  with samples in \<open>[-1, 1]\<close>, that is the minimum and the maximum of the window. A window that
  lies entirely past the end of the buffer leaves the initial values: min 1.0, max -1.0.
\<close>

theorem waveform_peaks_columns:
  "length (waveform_peaks data w) = w
   \<and> (\<forall>i<w.
        waveform_peaks data w ! i
          = (Min (insert 1 (window data w i)), Max (insert (- 1) (window data w i)))
        \<and> (window data w i \<noteq> {} \<and> (\<forall>x\<in>window data w i. - 1 \<le> x \<and> x \<le> 1)
             \<longrightarrow> waveform_peaks data w ! i = (Min (window data w i), Max (window data w i)))
        \<and> (length data \<le> i * nat \<lceil>real (length data) / real w\<rceil>
             \<longrightarrow> window data w i = {} \<and> waveform_peaks data w ! i = (1, - 1)))"
proof (intro conjI allI impI)
  show "length (waveform_peaks data w) = w"
    by (simp add: waveform_peaks_def Let_def)
next
  fix i assume i: "i < w"
  show gen: "waveform_peaks data w ! i
      = (Min (insert 1 (window data w i)), Max (insert (- 1) (window data w i)))"
    using i by (simp add: waveform_peaks_def window_def Let_def column_peak_window)
  {
    assume a: "window data w i \<noteq> {} \<and> (\<forall>x\<in>window data w i. - 1 \<le> x \<and> x \<le> 1)"
    have fin: "finite (window data w i)" by (simp add: window_def Let_def)
    from a fin have "Min (insert 1 (window data w i)) = Min (window data w i)"
      by (intro Min_insert_upper) auto
    moreover from a fin have "Max (insert (- 1) (window data w i)) = Max (window data w i)"
      by (intro Max_insert_lower) auto
    ultimately show "waveform_peaks data w ! i = (Min (window data w i), Max (window data w i))"
      using gen by simp
  }
  {
    assume "length data \<le> i * nat \<lceil>real (length data) / real w\<rceil>"
    then show e: "window data w i = {}" by (simp add: window_def Let_def)
    then show "waveform_peaks data w ! i = (1, - 1)" using gen by simp
  }
qed

lemma demo_step: "nat \<lceil>real (length [1/2::real]) / real 2\<rceil> = 1"
proof -
  have "\<lceil>(1::real) / 2\<rceil> = 1" by (rule ceiling_unique) simp_all
  then show ?thesis by simp
qed

text \<open>
  C2, as stated, fails on the code: a one-sample buffer drawn two pixels wide has
  \<open>step = 1\<close>, column 1's window lies past the end, and the column holds \<open>(1, -1)\<close>, not
  the prior sample \<open>0.5\<close> as both values.
\<close>

theorem waveform_peaks_empty_window:
  "waveform_peaks [1/2] 2 ! 1 = (1, - 1) \<and> waveform_peaks [1/2] 2 ! 1 \<noteq> ([1/2] ! 0, [1/2] ! 0)"
proof -
  have "waveform_peaks [1/2] 2 ! 1 = column_peak [1/2] 1 1"
    unfolding waveform_peaks_def Let_def demo_step by (simp add: numeral_2_eq_2)
  also have "\<dots> = (1, - 1)"
    by (simp add: column_peak_def typed_get_def peak_step_def)
  finally show ?thesis by simp
qed

theorem waveform_peaks_columns_witness:
  "waveform_peaks [1/2, -1/4, 1/8, 1] 2 = [(-1/4, 1/2), (1/8, 1)]
   \<and> waveform_peaks [1/2] 2 ! 1 = (1, - 1)"
proof -
  let ?d = "[1/2, -1/4, 1/8, 1] :: real list"
  have st: "nat \<lceil>real (length ?d) / real 2\<rceil> = 2" by simp
  have w0: "window ?d 2 0 = {1/2, -1/4}" and w1: "window ?d 2 1 = {1/8, 1}"
    unfolding window_def Let_def st by (simp_all add: numeral_2_eq_2)
  from waveform_peaks_columns [of ?d 2] have len: "length (waveform_peaks ?d 2) = 2"
    and c: "\<forall>i<2. (window ?d 2 i \<noteq> {} \<and> (\<forall>x\<in>window ?d 2 i. - 1 \<le> x \<and> x \<le> 1)
             \<longrightarrow> waveform_peaks ?d 2 ! i = (Min (window ?d 2 i), Max (window ?d 2 i)))"
    by blast+
  from c [rule_format, of 0] c [rule_format, of 1]
  have "waveform_peaks ?d 2 ! 0 = (-1/4, 1/2)" "waveform_peaks ?d 2 ! 1 = (1/8, 1)"
    unfolding w0 w1 by simp_all
  with len have a: "waveform_peaks ?d 2 = [(-1/4, 1/2), (1/8, 1)]"
    by (auto simp: length_Suc_conv numeral_2_eq_2)
  from waveform_peaks_columns [of "[1/2]" 2] have
    "\<forall>i<2. (length [1/2::real] \<le> i * nat \<lceil>real (length [1/2::real]) / real 2\<rceil>
             \<longrightarrow> waveform_peaks [1/2] 2 ! i = (1, - 1))"
    by blast
  from this [rule_format, of 1] have b: "waveform_peaks [1/2] 2 ! 1 = (1, - 1)"
    unfolding demo_step by simp
  from a b show ?thesis by simp
qed

section \<open>Further facts about the encoder and the windows\<close>

text \<open>
  Where the encoder's test and the sign test agree, the two conversions agree: for a
  clamped sample that is non-negative or below \<open>-0.5\<close>.
\<close>

lemma trunc_bounds:
  assumes "- 32768 \<le> y" "y \<le> 32768"
  shows "- 32768 \<le> trunc y \<and> trunc y \<le> 32768"
proof (cases "y < 0")
  case True
  have "\<lceil>- 32768 :: real\<rceil> \<le> \<lceil>y\<rceil>" using assms(1) by (rule ceiling_mono)
  moreover have "\<lceil>y\<rceil> \<le> 0" using True by (simp add: ceiling_le_iff)
  ultimately show ?thesis using True by (simp add: trunc_def)
next
  case False
  have "\<lfloor>y\<rfloor> \<le> \<lfloor>32768 :: real\<rfloor>" using assms(2) by (rule floor_mono)
  moreover have "0 \<le> \<lfloor>y\<rfloor>" using False by simp
  ultimately show ?thesis using False by (simp add: trunc_def)
qed

lemma to_int32_small:
  assumes "- 32768 \<le> trunc y" "trunc y \<le> 32768"
  shows "to_int32 y = trunc y"
proof -
  have "signed_take_bit 31 (trunc y) = trunc y"
    using assms by (intro signed_take_bit_int_eq_self) simp_all
  then show ?thesis by (simp add: to_int32_def sint_sbintrunc')
qed

lemma clamp_sample_range: "- 1 \<le> clamp_sample x \<and> clamp_sample x \<le> 1"
  by (simp add: clamp_sample_def)

lemma scale_sample_trunc:
  assumes "- 1 \<le> c" "c \<le> 1"
  shows "scale_sample c = trunc (if 1/2 + c < 0 then c * 32768 else c * 32767)"
proof -
  let ?y = "if 1/2 + c < 0 then c * 32768 else c * 32767"
  from assms have "- 32768 \<le> ?y" "?y \<le> 32768" by auto
  then have "- 32768 \<le> trunc ?y \<and> trunc ?y \<le> 32768" by (rule trunc_bounds)
  then show ?thesis unfolding scale_sample_def by (intro to_int32_small) simp_all
qed

lemma pcm_sample_agrees:
  "0 \<le> clamp_sample x \<or> clamp_sample x < - 1/2 \<Longrightarrow> pcm_sample x = spec_pcm_sample x"
  unfolding pcm_sample_def spec_pcm_sample_def Let_def
  using clamp_sample_range [of x]
  by (auto simp: scale_sample_trunc)

text \<open>
  The frame loop starts at the position the header writes left, 44: a buffer of at most 44
  frames has no sample written, and the bytes are those the header writes produced.
\<close>

lemma wav_data_short: "frames b \<le> 44 \<Longrightarrow> wav_data b view offset 44 = Inr view"
  by (simp add: wav_data.simps [of b view offset 44])

lemma bufferToWav_short:
  assumes "frames b \<le> 44"
  shows "\<exists>v. run_writes (wav_header b (frames b * numberOfChannels b * 2 + 44))
              (replicate (frames b * numberOfChannels b * 2 + 44) 0, 0) = Inr (v, 44)
            \<and> bufferToWav b = Inr v"
proof -
  let ?len = "frames b * numberOfChannels b * 2 + 44"
  obtain v where v: "run_writes (wav_header b ?len) (replicate ?len 0, 0) = Inr (v, 44)"
    using wav_header_runs [of ?len b] by auto
  then have "bufferToWav b = Inr v"
    using assms by (simp add: bufferToWav_def Let_def wav_data_short)
  with v show ?thesis by blast
qed

text \<open>The window of a column by indices.\<close>

lemma window_indices:
  "set (take step (drop (i * step) data))
     = {data ! k |k. i * step \<le> k \<and> k < (i + 1) * step \<and> k < length data}"
proof (intro set_eqI iffI)
  fix x assume "x \<in> set (take step (drop (i * step) data))"
  then obtain j where j: "j < length (take step (drop (i * step) data))"
      "take step (drop (i * step) data) ! j = x"
    by (auto simp: in_set_conv_nth)
  then have b: "j < step" "i * step + j < length data" by auto
  with j(2) have "x = data ! (i * step + j)" by simp
  with b show "x \<in> {data ! k |k. i * step \<le> k \<and> k < (i + 1) * step \<and> k < length data}"
    by (intro CollectI exI [of _ "i * step + j"]) simp
next
  fix x assume "x \<in> {data ! k |k. i * step \<le> k \<and> k < (i + 1) * step \<and> k < length data}"
  then obtain k where k: "x = data ! k" "i * step \<le> k" "k < (i + 1) * step" "k < length data"
    by blast
  let ?j = "k - i * step"
  from k have "?j < length (take step (drop (i * step) data))" by auto
  moreover from k have "take step (drop (i * step) data) ! ?j = x" by simp
  ultimately show "x \<in> set (take step (drop (i * step) data))" by (metis nth_mem)
qed

section \<open>Rounding to doubles\<close>

text \<open>
  What the model of the doubles gives: the rounding error is at most the \<open>2 ^ 53\<close>rd
  part of the value (and \<open>tiny\<close> near zero), the sign is kept, and the whole numbers
  below \<open>2 ^ 52\<close> are exact.
\<close>

lemma round_even_of_int: "round_even (of_int m) = m"
  by (simp add: round_even_def)

lemma round_even_err: "\<bar>of_int (round_even x) - x\<bar> \<le> 1/2"
proof -
  have "of_int \<lfloor>x\<rfloor> \<le> x" "x < of_int \<lfloor>x\<rfloor> + 1" by linarith+
  then show ?thesis by (auto simp: round_even_def Let_def)
qed

lemma round_even_nonneg: "0 \<le> x \<Longrightarrow> 0 \<le> round_even x"
  by (auto simp: round_even_def Let_def)

lemma quantum_pos: "0 < quantum x"
  by (simp add: quantum_def)

lemma tiny_pos: "0 < tiny"
  by (simp add: tiny_def)

lemma tiny_small: "tiny \<le> 1 / 2 ^ 100"
proof -
  have "tiny \<le> 2 powr (- 100)" unfolding tiny_def by (intro powr_mono) simp_all
  also have "\<dots> = 1 / 2 ^ 100" by (simp add: powr_minus_divide flip: powr_realpow)
  finally show ?thesis .
qed

lemma quantum_le: 
  assumes "x \<noteq> 0"
  shows "quantum x / 2 \<le> \<bar>x\<bar> / 2 ^ 53 + tiny"
proof (cases "- 1022 \<le> \<lfloor>log 2 \<bar>x\<bar>\<rfloor>")
  case True
  have "quantum x = 2 powr (real_of_int \<lfloor>log 2 \<bar>x\<bar>\<rfloor> - 52)"
    unfolding quantum_def max_absorb1 [OF True] by simp
  also have "\<dots> = 2 powr real_of_int \<lfloor>log 2 \<bar>x\<bar>\<rfloor> / 2 ^ 52"
    by (simp add: powr_diff flip: powr_realpow)
  also have "2 powr real_of_int \<lfloor>log 2 \<bar>x\<bar>\<rfloor> \<le> 2 powr (log 2 \<bar>x\<bar>)"
    by (intro powr_mono) simp_all
  also have "2 powr (log 2 \<bar>x\<bar>) = \<bar>x\<bar>" using assms by simp
  finally have "quantum x \<le> \<bar>x\<bar> / 2 ^ 52" by (simp add: divide_right_mono)
  then have "quantum x / 2 \<le> \<bar>x\<bar> / 2 ^ 53" by simp
  with tiny_pos show ?thesis by linarith
next
  case False
  then have "quantum x = 2 powr (- 1074)"
    by (simp add: quantum_def max_def)
  also have "\<dots> = 2 * tiny"
  proof -
    have "(2::real) powr (- 1074) = 2 powr (1 + (- 1075))" by simp
    also have "\<dots> = 2 powr 1 * 2 powr (- 1075)" by (rule powr_add)
    finally show ?thesis by (simp add: tiny_def)
  qed
  finally show ?thesis by simp
qed

lemma rnd_err: "\<bar>rnd x - x\<bar> \<le> \<bar>x\<bar> / 2 ^ 53 + tiny"
proof (cases "x = 0")
  case True
  then show ?thesis using tiny_pos by (simp add: rnd_def)
next
  case False
  let ?q = "quantum x"
  have q: "0 < ?q" by (rule quantum_pos)
  have "rnd x - x = ?q * (of_int (round_even (x / ?q)) - x / ?q)"
    using False q by (simp add: rnd_def algebra_simps)
  then have "\<bar>rnd x - x\<bar> = ?q * \<bar>of_int (round_even (x / ?q)) - x / ?q\<bar>"
    using q by (simp add: abs_mult)
  also have "\<dots> \<le> ?q * (1/2)"
    using q round_even_err [of "x / ?q"] by (intro mult_left_mono) simp_all
  also have "\<dots> \<le> \<bar>x\<bar> / 2 ^ 53 + tiny" using quantum_le [OF False] by simp
  finally show ?thesis .
qed

lemma rnd_nonneg: "0 \<le> x \<Longrightarrow> 0 \<le> rnd x"
  using quantum_pos [of x] by (simp add: rnd_def round_even_nonneg)

lemma rnd_of_int:
  assumes "\<bar>n\<bar> < 2 ^ 52"
  shows "rnd (of_int n) = of_int n"
proof (cases "n = 0")
  case True
  then show ?thesis by (simp add: rnd_def)
next
  case False
  let ?x = "real_of_int n"
  let ?e = "\<lfloor>log 2 \<bar>?x\<bar>\<rfloor>"
  from False have "1 \<le> \<bar>n\<bar>" by simp
  then have "real_of_int 1 \<le> real_of_int \<bar>n\<bar>" by (rule of_int_le_iff [THEN iffD2])
  then have one: "1 \<le> \<bar>?x\<bar>" by simp
  then have "0 \<le> log 2 \<bar>?x\<bar>" by simp
  then have e0: "0 \<le> ?e" by simp
  have "\<bar>?x\<bar> < 2 ^ 52" using assms by (simp flip: of_int_abs)
  then have "log 2 \<bar>?x\<bar> < log 2 (2 ^ 52)" using one by (intro log_less) simp_all
  also have "log 2 ((2::real) ^ 52) = 52"
  proof -
    have "log 2 ((2::real) ^ 52) = real 52 * log 2 2" by (rule log_nat_power) simp
    then show ?thesis by simp
  qed
  finally have "?e < 52" by (simp add: floor_less_iff)
  define k where "k = nat (52 - ?e)"
  from e0 \<open>?e < 52\<close> have k: "?e - 52 = - int k" by (simp add: k_def)
  have "quantum ?x = 2 powr real_of_int (?e - 52)"
    using e0 by (simp add: quantum_def max_def)
  also have "\<dots> = 1 / 2 ^ k"
    unfolding k by (simp add: powr_minus_divide powr_realpow)
  finally have q: "quantum ?x = 1 / 2 ^ k" .
  have "?x / quantum ?x = of_int (n * 2 ^ k)" by (simp add: q)
  then have "round_even (?x / quantum ?x) = n * 2 ^ k" by (simp only: round_even_of_int)
  with False show ?thesis by (simp add: rnd_def q)
qed


lemma round_double_finite:
  assumes "\<bar>x\<bar> \<le> 2 ^ 1001"
  shows "round_double x = Num (rnd x)"
proof -
  have "\<bar>rnd x - x\<bar> \<le> \<bar>x\<bar> / 2 ^ 53 + tiny" by (rule rnd_err)
  moreover have "\<bar>x\<bar> / 2 ^ 53 \<le> \<bar>x\<bar>" by (simp add: divide_le_eq)
  moreover have "tiny \<le> 1" using tiny_small by (simp add: order_trans)
  ultimately have "\<bar>rnd x\<bar> \<le> 2 * 2 ^ 1001 + 1" using assms by linarith
  also have "\<dots> < (2::real) ^ 1024" by simp
  finally have "\<bar>rnd x\<bar> < 2 ^ 1024" .
  then show ?thesis by (auto simp: round_double_def Let_def)
qed

lemma round_double_of_int:
  assumes "\<bar>n\<bar> < 2 ^ 52"
  shows "round_double (of_int n) = Num (of_int n)"
proof -
  have "\<bar>real_of_int n\<bar> < 2 ^ 52" using assms by (simp flip: of_int_abs)
  also have "(2::real) ^ 52 \<le> 2 ^ 1001" by (intro power_increasing) simp_all
  finally have "round_double (of_int n) = Num (rnd (of_int n))"
    by (intro round_double_finite) simp
  with rnd_of_int [OF assms] show ?thesis by simp
qed

lemma round_double_of_nat:
  assumes "n < 2 ^ 52"
  shows "round_double (real n) = Num (real n)"
  using round_double_of_int [of "int n"] assms by simp

section \<open>Evaluating slice\<close>

lemma jsub_Num: "jsub (Num a) (Num b) = round_double (a - b)"
  by (simp add: jsub_def)

lemma jle_Num: "jle (Num a) (Num b) \<longleftrightarrow> a \<le> b"
  by (auto simp: jle_def)


lemma to_uint32_of_int:
  "0 \<le> k \<Longrightarrow> k < 2 ^ 32 \<Longrightarrow> to_uint32 (Num (of_int k)) = nat k"
  by (simp add: trunc_def)

lemma loop_count_of_int:
  "0 \<le> k \<Longrightarrow> k \<le> 2 ^ 53 \<Longrightarrow> loop_count (Num (of_int k)) = Some (nat k)"
proof -
  assume k: "0 \<le> k" "k \<le> 2 ^ 53"
  then have "real_of_int k \<le> real_of_int (2 ^ 53)" by (simp only: of_int_le_iff)
  then have "\<not> 2 ^ 53 < real_of_int k" by simp
  then show ?thesis by simp
qed

lemma rnd_close:
  assumes "0 \<le> y" "y \<le> 2 ^ 33"
  shows "round_double y = Num (rnd y)" "0 \<le> rnd y" "\<bar>rnd y - y\<bar> \<le> 1 / 2 ^ 19"
proof -
  have "(2::real) ^ 33 \<le> 2 ^ 1001" by (intro power_increasing) simp_all
  with assms have "\<bar>y\<bar> \<le> 2 ^ 1001" by simp
  then show "round_double y = Num (rnd y)" by (rule round_double_finite)
  show "0 \<le> rnd y" using assms(1) by (rule rnd_nonneg)
  have "\<bar>rnd y - y\<bar> \<le> \<bar>y\<bar> / 2 ^ 53 + tiny" by (rule rnd_err)
  moreover have "\<bar>y\<bar> / 2 ^ 53 \<le> 2 ^ 33 / 2 ^ 53" using assms by (simp add: divide_right_mono)
  moreover have "tiny \<le> 1 / 2 ^ 100" by (rule tiny_small)
  ultimately show "\<bar>rnd y - y\<bar> \<le> 1 / 2 ^ 19" by simp
qed

lemma slice_samples_in_range:
  assumes S: "0 \<le> S" and fit: "nat S + n \<le> length cd" and len: "length cd < 2 ^ 32"
  shows "slice_samples cd (Num (of_int S)) n = take n (drop (nat S) cd)"
proof (rule nth_equalityI)
  show "length (slice_samples cd (Num (of_int S)) n) = length (take n (drop (nat S) cd))"
    using fit by (simp add: slice_samples_def)
next
  fix j assume "j < length (slice_samples cd (Num (of_int S)) n)"
  then have j: "j < n" by (simp add: slice_samples_def)
  let ?k = "S + int j"
  from S j fit have k: "0 \<le> ?k" "?k < int (length cd)" by linarith+
  with len have "\<bar>?k\<bar> < 2 ^ 52" by simp
  then have "round_double (of_int ?k) = Num (of_int ?k)" by (rule round_double_of_int)
  then have "jadd (Num (of_int S)) (Num (real j)) = Num (of_int ?k)" by simp
  moreover have "typed_get_num cd (Num (of_int ?k)) = Some (cd ! nat ?k)"
    using k by (simp add: typed_get_def)
  moreover have "nat ?k = nat S + j" using S by linarith
  ultimately show "slice_samples cd (Num (of_int S)) n ! j = take n (drop (nat S) cd) ! j"
    using j fit by (simp add: slice_samples_def or_zero_def)
qed

lemma copy_slice_eq:
  "length nd = n \<Longrightarrow> copy_slice cd ss n nd = slice_samples cd ss n"
  unfolding copy_slice_def slice_samples_def by (rule fold_update_all)

lemma slice_channels_ok:
  "\<forall>i\<in>set is. i < numberOfChannels b \<and> i < length (channels nb) \<Longrightarrow>
   list_all (\<lambda>c. length c = n) (channels nb) \<Longrightarrow>
   slice_channels b ss n is nb =
     Inr (nb\<lparr>channels :=
       fold (\<lambda>i cs. cs[i := slice_samples (channels b ! i) ss n]) is (channels nb)\<rparr>)"
proof (induction "is" arbitrary: nb)
  case Nil
  then show ?case by simp
next
  case (Cons i "is")
  let ?c = "slice_samples (channels b ! i) ss n"
  let ?nb = "nb\<lparr>channels := (channels nb)[i := ?c]\<rparr>"
  from Cons.prems have i: "i < numberOfChannels b" "i < length (channels nb)" by auto
  from Cons.prems(2) i have len: "length (channels nb ! i) = n"
    by (simp add: list_all_length)
  have step: "slice_channels b ss n (i # is) nb = slice_channels b ss n is ?nb"
    using i len by (simp add: getChannelData_def numberOfChannels_def copy_slice_eq)
  have all: "list_all (\<lambda>c. length c = n) (channels ?nb)"
    using Cons.prems(2) i(2) by (auto simp: list_all_length nth_list_update slice_samples_def)
  have idx: "\<forall>i\<in>set is. i < numberOfChannels b \<and> i < length (channels ?nb)"
    using Cons.prems(1) by simp
  show ?case
    unfolding step using Cons.IH [OF idx all] by simp
qed

lemma slice_eval:
  assumes wf: "wf_buffer b"
    and S: "math_floor (jmul start (Num (real (sampleRate b)))) = Num (of_int S)"
    and E: "math_floor (jmul endT (Num (real (sampleRate b)))) = Num (of_int E)"
    and small: "\<bar>E - S\<bar> < 2 ^ 32"
  shows "E - S \<le> 0 \<Longrightarrow> sliceAudioBuffer b start endT =
           Inr \<lparr>sampleRate = sampleRate b, frames = 1,
                channels = replicate (numberOfChannels b) [0]\<rparr>"
    and "0 < E - S \<Longrightarrow> sliceAudioBuffer b start endT =
           Inr \<lparr>sampleRate = sampleRate b, frames = nat (E - S),
                channels = map (\<lambda>i. slice_samples (channels b ! i) (Num (of_int S)) (nat (E - S)))
                  [0..<numberOfChannels b]\<rparr>"
proof -
  let ?n = "numberOfChannels b"
  from wf have n: "0 < ?n" and r: "0 < sampleRate b"
    by (simp_all add: wf_buffer_def numberOfChannels_def)
  from small have "\<bar>E - S\<bar> < 2 ^ 52" by simp
  then have "round_double (of_int (E - S)) = Num (of_int (E - S))"
    by (rule round_double_of_int)
  then have fc: "jsub (Num (of_int E)) (Num (of_int S)) = Num (of_int (E - S))"
    by (simp add: jsub_Num)
  {
    assume "E - S \<le> 0"
    then have "jle (Num (of_int (E - S))) (Num 0)" by (simp add: jle_Num)
    then show "sliceAudioBuffer b start endT =
           Inr \<lparr>sampleRate = sampleRate b, frames = 1,
                channels = replicate ?n [0]\<rparr>"
      using n r unfolding sliceAudioBuffer_def Let_def S E fc
      by (simp add: createBuffer_def)
  }
  {
    assume pos: "0 < E - S"
    let ?fc = "nat (E - S)"
    let ?nb = "\<lparr>sampleRate = sampleRate b, frames = ?fc,
       channels = replicate ?n (replicate ?fc 0)\<rparr>"
    from pos have nle: "\<not> jle (Num (of_int (E - S))) (Num 0)" by (simp add: jle_Num)
    from pos small have u: "to_uint32 (Num (of_int (E - S))) = ?fc"
      by (intro to_uint32_of_int) simp_all
    from pos small have lc: "loop_count (Num (of_int (E - S))) = Some ?fc"
      by (intro loop_count_of_int) simp_all
    have cb: "createBuffer ?n ?fc (sampleRate b) = Inr ?nb"
      using n pos r by (intro createBuffer_ok) simp_all
    have sc: "slice_channels b (Num (of_int S)) ?fc [0..<?n] ?nb =
        Inr (?nb\<lparr>channels :=
          fold (\<lambda>i cs. cs[i := slice_samples (channels b ! i) (Num (of_int S)) ?fc])
            [0..<?n] (channels ?nb)\<rparr>)"
      by (rule slice_channels_ok) (simp_all add: list_all_length)
    have fd: "fold (\<lambda>i cs. cs[i := slice_samples (channels b ! i) (Num (of_int S)) ?fc])
        [0..<?n] (channels ?nb)
        = map (\<lambda>i. slice_samples (channels b ! i) (Num (of_int S)) ?fc) [0..<?n]"
      by (rule fold_update_all) simp
    have "sliceAudioBuffer b start endT = slice_channels b (Num (of_int S)) ?fc [0..<?n] ?nb"
      unfolding sliceAudioBuffer_def Let_def S E fc using nle u lc cb by simp
    then show "sliceAudioBuffer b start endT =
           Inr \<lparr>sampleRate = sampleRate b, frames = ?fc,
                channels = map (\<lambda>i. slice_samples (channels b ! i) (Num (of_int S)) ?fc)
                  [0..<?n]\<rparr>"
      unfolding sc fd by simp
  }
qed

lemma floors_tolerance:
  fixes ps pe x :: real
  assumes "\<bar>(pe - ps) - x\<bar> \<le> 1/4"
  shows "\<bar>(\<lfloor>pe\<rfloor> - \<lfloor>ps\<rfloor>) - round x\<bar> \<le> 1"
proof -
  define t where "t = (\<lfloor>pe\<rfloor> - \<lfloor>ps\<rfloor>) - round x"
  have fl: "real_of_int \<lfloor>ps\<rfloor> \<le> ps" "ps < real_of_int \<lfloor>ps\<rfloor> + 1"
       "real_of_int \<lfloor>pe\<rfloor> \<le> pe" "pe < real_of_int \<lfloor>pe\<rfloor> + 1"
    by linarith+
  have rd: "real_of_int (round x) \<le> x + 1/2" "x - 1/2 < real_of_int (round x)"
    using of_int_round_le [of x] of_int_round_gt [of x] by linarith+
  have "real_of_int t < real_of_int 2" "real_of_int (-2) < real_of_int t"
    using fl rd assms unfolding t_def of_int_diff of_int_minus of_int_numeral by linarith+
  then have "t < 2" "-2 < t" by (simp_all only: of_int_less_iff)
  then show ?thesis unfolding t_def by linarith
qed

lemma one_frame_tolerance:
  fixes x :: real
  assumes "0 \<le> x" "x < 3/2"
  shows "\<bar>1 - round x\<bar> \<le> 1"
proof -
  have "real_of_int (round x) \<le> x + 1/2" "x - 1/2 < real_of_int (round x)"
    using of_int_round_le [of x] of_int_round_gt [of x] by linarith+
  with assms have "real_of_int (-1) < real_of_int (round x)" "real_of_int (round x) < real_of_int 2"
    unfolding of_int_minus of_int_numeral of_int_1 by linarith+
  then have "-1 < round x" "round x < 2" by (simp_all only: of_int_less_iff)
  then show ?thesis by linarith
qed

lemma abs_upper: "\<bar>u - v\<bar> \<le> w \<Longrightarrow> u \<le> v + (w::real)"
  by linarith

lemma abs_sum_bound:
  "\<bar>u\<bar> \<le> p + q \<Longrightarrow> p \<le> c1 \<Longrightarrow> q \<le> c2 \<Longrightarrow> c1 + c2 \<le> c \<Longrightarrow> \<bar>u\<bar> \<le> (c::real)"
  by linarith

lemma abs_triangle_bound:
  "\<bar>u - v\<bar> \<le> c1 \<Longrightarrow> \<bar>v - w\<bar> \<le> c2 \<Longrightarrow> c1 + c2 \<le> c \<Longrightarrow> \<bar>u - w\<bar> \<le> (c::real)"
  by linarith

lemma upper_sum_bound:
  "u \<le> v + p + q \<Longrightarrow> p \<le> c1 \<Longrightarrow> q \<le> c2 \<Longrightarrow> c1 + c2 \<le> c \<Longrightarrow> u \<le> v + (c::real)"
  by linarith

text \<open>The double products of the slice for times inside the buffer.\<close>

lemma slice_products:
  fixes s e :: real
  assumes wf: "wf_buffer b"
    and len: "frames b < 2 ^ 32" and rate: "sampleRate b < 2 ^ 32"
    and s: "0 \<le> s" and se: "s \<le> e"
    and e: "jle (Num e) (buffer_duration b)"
  shows "\<exists>ps pe.
      jmul (Num s) (Num (real (sampleRate b))) = Num ps
    \<and> jmul (Num e) (Num (real (sampleRate b))) = Num pe
    \<and> 0 \<le> ps \<and> pe < real (frames b) + 1
    \<and> \<bar>ps - s * real (sampleRate b)\<bar> \<le> 1 / 2 ^ 19
    \<and> \<bar>pe - e * real (sampleRate b)\<bar> \<le> 1 / 2 ^ 19
    \<and> e * real (sampleRate b) \<le> real (frames b) + 1 / 2 ^ 20"
proof -
  define r where "r = real (sampleRate b)"
  define L where "L = real (frames b)"
  from wf have r1: "1 \<le> r" and L1: "1 \<le> L"
    by (simp_all add: wf_buffer_def r_def L_def Suc_leI)
  from rate have r32: "r \<le> 2 ^ 32"
    unfolding r_def by (metis of_nat_less_iff of_nat_numeral of_nat_power less_imp_le)
  from len have L32: "L \<le> 2 ^ 32"
    unfolding L_def by (metis of_nat_less_iff of_nat_numeral of_nat_power less_imp_le)
  have r0: "0 < r" using r1 by simp
  have q: "0 \<le> L / r" "L / r \<le> L"
    using r1 L1 by (simp_all add: divide_le_eq mult_le_cancel_left1)
  define d where "d = rnd (L / r)"
  have "L / r \<le> 2 ^ 33" using q L32 by simp
  with q(1) have dd: "round_double (L / r) = Num d" by (simp add: rnd_close(1) d_def)
  have derr: "\<bar>d - L / r\<bar> \<le> \<bar>L / r\<bar> / 2 ^ 53 + tiny"
    unfolding d_def by (rule rnd_err)
  from wf have "sampleRate b \<noteq> 0" by (simp add: wf_buffer_def)
  then have "buffer_duration b = Num d"
    using dd by (simp add: buffer_duration_def r_def L_def)
  with e have ed: "e \<le> d" by (simp add: jle_Num)
  have "d \<le> L / r + (\<bar>L / r\<bar> / 2 ^ 53 + tiny)" using derr by (rule abs_upper)
  then have "d \<le> L / r + L / r / 2 ^ 53 + tiny"
    unfolding abs_of_nonneg [OF q(1)] by (simp only: add.assoc)
  then have "d * r \<le> (L / r + L / r / 2 ^ 53 + tiny) * r"
    using r0 by (intro mult_right_mono) simp_all
  also have "\<dots> = L + L / 2 ^ 53 + tiny * r"
    using r0 by (simp add: field_simps)
  finally have dr: "d * r \<le> L + L / 2 ^ 53 + tiny * r" .
  have "L / 2 ^ 53 \<le> 2 ^ 32 / 2 ^ 53" using L32 by (intro divide_right_mono) simp_all
  then have t1: "L / 2 ^ 53 \<le> 1 / 2 ^ 21" by simp
  have "tiny * r \<le> (1 / 2 ^ 100) * 2 ^ 32"
    using tiny_small r32 r0 tiny_pos by (intro mult_mono) simp_all
  then have t2: "tiny * r \<le> 1 / 2 ^ 21" by simp
  have "e * r \<le> d * r" using ed r0 by (intro mult_right_mono) simp_all
  from this dr have "e * r \<le> L + L / 2 ^ 53 + tiny * r" by (rule order_trans)
  then have er: "e * r \<le> L + 1 / 2 ^ 20" using t1 t2 by (rule upper_sum_bound) simp
  have er0: "0 \<le> e * r" using s se r0 by simp
  have sr0: "0 \<le> s * r" using s r0 by simp
  have sr: "s * r \<le> e * r" using se r0 by (intro mult_right_mono) simp_all
  have top: "e * r \<le> 2 ^ 33" using er L32 by simp
  then have tops: "s * r \<le> 2 ^ 33" using sr by simp
  note pe = rnd_close [OF er0 top]
  note ps = rnd_close [OF sr0 tops]
  have "rnd (e * r) \<le> e * r + 1 / 2 ^ 19" using pe(3) by (rule abs_upper)
  with er have "rnd (e * r) \<le> L + 1 / 2 ^ 20 + 1 / 2 ^ 19" by linarith
  also have "\<dots> < L + 1" by simp
  finally have "rnd (e * r) < L + 1" .
  then show ?thesis
    using ps pe er unfolding r_def L_def
    by (intro exI [of _ "rnd (s * real (sampleRate b))"]
        exI [of _ "rnd (e * real (sampleRate b))"]) simp
qed

text \<open>The double difference and product of the tolerance.\<close>

lemma slice_span:
  fixes s e :: real
  assumes wf: "wf_buffer b"
    and len: "frames b < 2 ^ 32" and rate: "sampleRate b < 2 ^ 32"
    and s: "0 \<le> s" and se: "s \<le> e"
    and er: "e * real (sampleRate b) \<le> real (frames b) + 1 / 2 ^ 20"
  shows "\<exists>x'. jmul (jsub (Num e) (Num s)) (Num (real (sampleRate b))) = Num x'
     \<and> \<bar>x' - (e - s) * real (sampleRate b)\<bar> \<le> 1 / 2 ^ 18 \<and> 0 \<le> x'"
proof -
  define r where "r = real (sampleRate b)"
  define L where "L = real (frames b)"
  define g where "g = rnd (e - s)"
  define x where "x = (e - s) * r"
  from wf have r1: "1 \<le> r" and L1: "1 \<le> L"
    by (simp_all add: wf_buffer_def r_def L_def Suc_leI)
  from rate have r32: "r \<le> 2 ^ 32"
    unfolding r_def by (metis of_nat_less_iff of_nat_numeral of_nat_power less_imp_le)
  from len have L32: "L \<le> 2 ^ 32"
    unfolding L_def by (metis of_nat_less_iff of_nat_numeral of_nat_power less_imp_le)
  have r0: "0 < r" using r1 by simp
  have es0: "0 \<le> e - s" using se by simp
  have x0: "0 \<le> x" unfolding x_def using es0 r0 by simp
  have "x \<le> e * r" unfolding x_def using s r0 by (simp add: algebra_simps)
  with er have xL: "x \<le> L + 1 / 2 ^ 20" by (simp add: r_def L_def)
  have "e - s \<le> (e - s) * r" using es0 r1 by (simp add: mult_le_cancel_left1)
  then have es: "e - s \<le> 2 ^ 33" using xL L32 by (simp add: x_def)
  note gg = rnd_close [OF es0 es]
  have gerr: "\<bar>g - (e - s)\<bar> \<le> \<bar>e - s\<bar> / 2 ^ 53 + tiny"
    unfolding g_def by (rule rnd_err)
  have g0: "0 \<le> g" unfolding g_def by (rule gg(2))
  have "\<bar>g * r - x\<bar> = \<bar>g - (e - s)\<bar> * r"
    unfolding x_def using r0 by (simp add: abs_mult flip: left_diff_distrib)
  also have "\<dots> \<le> (\<bar>e - s\<bar> / 2 ^ 53 + tiny) * r"
    using gerr r0 by (intro mult_right_mono) simp_all
  also have "\<dots> = x / 2 ^ 53 + tiny * r"
    using es0 by (simp add: x_def algebra_simps)
  finally have gr: "\<bar>g * r - x\<bar> \<le> x / 2 ^ 53 + tiny * r" .
  have "x / 2 ^ 53 \<le> 2 ^ 33 / 2 ^ 53" using xL L32 by (intro divide_right_mono) simp_all
  then have t1: "x / 2 ^ 53 \<le> 1 / 2 ^ 20" by simp
  have "tiny * r \<le> (1 / 2 ^ 100) * 2 ^ 32"
    using tiny_small r32 r0 tiny_pos by (intro mult_mono) simp_all
  then have t2: "tiny * r \<le> 1 / 2 ^ 20" by simp
  from gr t1 t2 have grx: "\<bar>g * r - x\<bar> \<le> 1 / 2 ^ 19" by (rule abs_sum_bound) simp
  have gr0: "0 \<le> g * r" using g0 r0 by simp
  have "g * r \<le> x + 1 / 2 ^ 19" using grx by (rule abs_upper)
  with xL L32 have "g * r \<le> 2 ^ 32 + 1 / 2 ^ 20 + 1 / 2 ^ 19" by linarith
  also have "\<dots> \<le> (2::real) ^ 33" by simp
  finally have grtop: "g * r \<le> 2 ^ 33" .
  note xx = rnd_close [OF gr0 grtop]
  have "jsub (Num e) (Num s) = Num g" using gg(1) by (simp add: jsub_Num g_def)
  then have "jmul (jsub (Num e) (Num s)) (Num r) = Num (rnd (g * r))"
    using xx(1) by simp
  moreover have "\<bar>rnd (g * r) - x\<bar> \<le> 1 / 2 ^ 18"
    using xx(3) grx by (rule abs_triangle_bound) simp
  ultimately show ?thesis
    using xx(2) unfolding r_def x_def by blast
qed

lemma map_nth_channels: "map (\<lambda>i. f (xs ! i)) [0..<length xs] = map f xs"
  by (rule nth_equalityI) simp_all

lemma slice_in_range:
  fixes s e :: real
  assumes wf: "wf_buffer b"
    and len: "frames b < 2 ^ 32" and rate: "sampleRate b < 2 ^ 32"
    and s: "0 \<le> s"
    and e: "jle (Num e) (buffer_duration b)"
    and gap: "99/1000 \<le> e - s"
  shows "\<exists>S E x'.
      math_floor (jmul (Num s) (Num (real (sampleRate b)))) = Num (of_int S)
    \<and> math_floor (jmul (Num e) (Num (real (sampleRate b)))) = Num (of_int E)
    \<and> jmul (jsub (Num e) (Num s)) (Num (real (sampleRate b))) = Num x'
    \<and> 0 \<le> S \<and> S \<le> E \<and> E \<le> int (frames b)
    \<and> (11 \<le> sampleRate b \<longrightarrow> S < E)
    \<and> sliceAudioBuffer b (Num s) (Num e) =
         Inr (if E \<le> S
              then \<lparr>sampleRate = sampleRate b, frames = 1,
                    channels = replicate (numberOfChannels b) [0]\<rparr>
              else \<lparr>sampleRate = sampleRate b, frames = nat (E - S),
                    channels = map (\<lambda>c. take (nat (E - S)) (drop (nat S) c)) (channels b)\<rparr>)
    \<and> \<bar>(if E \<le> S then 1 else E - S) - round ((e - s) * real (sampleRate b))\<bar> \<le> 1
    \<and> \<bar>(if E \<le> S then 1 else E - S) - round x'\<bar> \<le> 1"
proof -
  define r where "r = real (sampleRate b)"
  define L where "L = real (frames b)"
  define x where "x = (e - s) * r"
  from wf have r1: "1 \<le> r"
    by (simp add: wf_buffer_def r_def Suc_leI)
  from wf have lens: "\<And>c. c < numberOfChannels b \<Longrightarrow> length (channels b ! c) = frames b"
    by (simp add: wf_buffer_def numberOfChannels_def list_all_length)
  from gap have se: "s \<le> e" by simp
  from slice_products [OF wf len rate s se e] obtain ps pe where
    ps: "jmul (Num s) (Num r) = Num ps" and pe: "jmul (Num e) (Num r) = Num pe"
    and ps0: "0 \<le> ps" and peL: "pe < L + 1"
    and pserr: "\<bar>ps - s * r\<bar> \<le> 1 / 2 ^ 19" and peerr: "\<bar>pe - e * r\<bar> \<le> 1 / 2 ^ 19"
    and er: "e * r \<le> L + 1 / 2 ^ 20"
    unfolding r_def L_def by blast
  from slice_span [OF wf len rate s se] er obtain x' where
    x': "jmul (jsub (Num e) (Num s)) (Num r) = Num x'"
    and x'err: "\<bar>x' - x\<bar> \<le> 1 / 2 ^ 18" and x'0: "0 \<le> x'"
    unfolding r_def L_def x_def by blast
  define S where "S = \<lfloor>ps\<rfloor>"
  define E where "E = \<lfloor>pe\<rfloor>"
  have xeq: "x = e * r - s * r" by (simp add: x_def algebra_simps)
  have "99/1000 * 1 \<le> (e - s) * r"
    using gap r1 by (intro mult_mono) simp_all
  then have xlow: "99/1000 \<le> x" by (simp add: x_def)
  have dx: "\<bar>(pe - ps) - x\<bar> \<le> 1 / 2 ^ 18"
  proof -
    have "\<bar>(pe - ps) - x\<bar> \<le> 1 / 2 ^ 19 + 1 / 2 ^ 19"
      using pserr peerr unfolding xeq by linarith
    then show ?thesis by simp
  qed
  have dx': "\<bar>(pe - ps) - x'\<bar> \<le> 1 / 2 ^ 17"
  proof -
    have "\<bar>(pe - ps) - x'\<bar> \<le> 1 / 2 ^ 18 + 1 / 2 ^ 18"
      using dx x'err by linarith
    then show ?thesis by simp
  qed
  have small: "(1::real) / 2 ^ 18 \<le> 1 / 1000" "(1::real) / 2 ^ 17 \<le> 1 / 1000" by simp_all
  have S0: "0 \<le> S" unfolding S_def using ps0 by simp
  have "pe < real_of_int (int (frames b) + 1)" using peL by (simp add: L_def)
  then have "E < int (frames b) + 1" unfolding E_def by (simp only: floor_less_iff)
  then have EL: "E \<le> int (frames b)" by simp
  have "ps \<le> pe" using dx xlow small by linarith
  then have SE: "S \<le> E" unfolding S_def E_def by (rule floor_mono)
  have strict: "11 \<le> sampleRate b \<longrightarrow> S < E"
  proof
    assume "11 \<le> sampleRate b"
    then have "11 \<le> r" by (simp add: r_def)
    then have "99/1000 * 11 \<le> (e - s) * r"
      using gap by (intro mult_mono) simp_all
    then have "1089/1000 \<le> x" by (simp add: x_def)
    then have "ps + 1 \<le> pe" using dx small by linarith
    then have "\<lfloor>ps + 1\<rfloor> \<le> \<lfloor>pe\<rfloor>" by (rule floor_mono)
    then show "S < E" by (simp add: S_def E_def)
  qed
  have mfS: "math_floor (jmul (Num s) (Num r)) = Num (of_int S)"
    by (simp only: ps S_def math_floor.simps)
  have mfE: "math_floor (jmul (Num e) (Num r)) = Num (of_int E)"
    by (simp only: pe E_def math_floor.simps)
  from len have "int (frames b) < 2 ^ 32" by (metis of_nat_less_iff of_nat_numeral of_nat_power)
  with S0 SE EL have span: "\<bar>E - S\<bar> < 2 ^ 32" by linarith
  note ev = slice_eval [OF wf mfS [unfolded r_def] mfE [unfolded r_def] span]
  have out: "sliceAudioBuffer b (Num s) (Num e) =
         Inr (if E \<le> S
              then \<lparr>sampleRate = sampleRate b, frames = 1,
                    channels = replicate (numberOfChannels b) [0]\<rparr>
              else \<lparr>sampleRate = sampleRate b, frames = nat (E - S),
                    channels = map (\<lambda>c. take (nat (E - S)) (drop (nat S) c)) (channels b)\<rparr>)"
  proof (cases "E \<le> S")
    case True
    then have "E - S \<le> 0" by simp
    from ev(1) [OF this] True show ?thesis by simp
  next
    case False
    then have pos: "0 < E - S" by simp
    have fit: "nat S + nat (E - S) \<le> frames b" using S0 SE EL by linarith
    have "\<And>i. i < numberOfChannels b \<Longrightarrow>
        slice_samples (channels b ! i) (Num (of_int S)) (nat (E - S))
          = take (nat (E - S)) (drop (nat S) (channels b ! i))"
      using S0 fit len lens by (intro slice_samples_in_range) simp_all
    then have "map (\<lambda>i. slice_samples (channels b ! i) (Num (of_int S)) (nat (E - S)))
          [0..<numberOfChannels b]
        = map (\<lambda>i. take (nat (E - S)) (drop (nat S) (channels b ! i))) [0..<numberOfChannels b]"
      by simp
    also have "\<dots> = map (\<lambda>c. take (nat (E - S)) (drop (nat S) c)) (channels b)"
      unfolding numberOfChannels_def by (rule map_nth_channels)
    finally show ?thesis using ev(2) [OF pos] False by simp
  qed
  have tol: "\<bar>(if E \<le> S then 1 else E - S) - round x\<bar> \<le> 1"
    "\<bar>(if E \<le> S then 1 else E - S) - round x'\<bar> \<le> 1"
  proof -
    have quarter: "\<bar>(pe - ps) - x\<bar> \<le> 1/4" "\<bar>(pe - ps) - x'\<bar> \<le> 1/4"
      using dx dx' small by linarith+
    show "\<bar>(if E \<le> S then 1 else E - S) - round x\<bar> \<le> 1"
    proof (cases "E \<le> S")
      case True
      with SE have "\<lfloor>pe\<rfloor> = \<lfloor>ps\<rfloor>" by (simp add: S_def E_def)
      then have "pe < ps + 1" by linarith
      with quarter(1) xlow have "0 \<le> x" "x < 3/2" by linarith+
      then show ?thesis using True by (simp add: one_frame_tolerance)
    next
      case False
      then show ?thesis using floors_tolerance [OF quarter(1)] by (simp add: S_def E_def)
    qed
    show "\<bar>(if E \<le> S then 1 else E - S) - round x'\<bar> \<le> 1"
    proof (cases "E \<le> S")
      case True
      with SE have "\<lfloor>pe\<rfloor> = \<lfloor>ps\<rfloor>" by (simp add: S_def E_def)
      then have "pe < ps + 1" by linarith
      with quarter(2) x'0 have "0 \<le> x'" "x' < 3/2" by linarith+
      then show ?thesis using True by (simp add: one_frame_tolerance)
    next
      case False
      then show ?thesis using floors_tolerance [OF quarter(2)] by (simp add: S_def E_def)
    qed
  qed
  show ?thesis
    using mfS mfE x' S0 SE EL strict out tol
    unfolding r_def x_def by blast
qed

section \<open>Slice inside the buffer\<close>

text \<open>
  C3. Slice of a buffer with at least one channel and one frame, on times \<open>s\<close> and \<open>e\<close>
  with \<open>0 \<le> s\<close>, \<open>e\<close> at most the duration of the buffer, and \<open>e - s\<close> at least
  \<open>99/1000\<close> (less than the double nearest to 0.1). The products
  \<open>start * sampleRate\<close> and \<open>end * sampleRate\<close> are those of the doubles; \<open>S\<close> and \<open>E\<close>
  are their floors, as \<open>Math.floor\<close> gives them. Slice returns a buffer with the rate and
  the channel count of the source. Its first \<open>E - S\<close> frames are the frames \<open>[S, E)\<close> of
  every channel of the source, unchanged, and \<open>[S, E)\<close> lies inside the source. Its
  frame count is within one of \<open>round ((e - s) * sampleRate)\<close>, for the exact product and
  for the product \<open>x'\<close> of the doubles. From 11 Hz on, \<open>S < E\<close> and the buffer consists
  of exactly these frames; below, \<open>S = E\<close> is possible and the buffer is then the one
  silent frame of the fallback. The frame count and the rate of the source are below
  \<open>2 ^ 32\<close>, as the host has them.
\<close>

theorem slice_frames:
  fixes s e :: real
  assumes wf: "wf_buffer b"
    and len: "frames b < 2 ^ 32" and rate: "sampleRate b < 2 ^ 32"
    and s: "0 \<le> s"
    and e: "jle (Num e) (buffer_duration b)"
    and gap: "99/1000 \<le> e - s"
  shows "\<exists>out S E x'.
      sliceAudioBuffer b (Num s) (Num e) = Inr out
    \<and> math_floor (jmul (Num s) (Num (real (sampleRate b)))) = Num (of_int S)
    \<and> math_floor (jmul (Num e) (Num (real (sampleRate b)))) = Num (of_int E)
    \<and> jmul (jsub (Num e) (Num s)) (Num (real (sampleRate b))) = Num x'
    \<and> 0 \<le> S \<and> S \<le> E \<and> E \<le> int (frames b)
    \<and> wf_buffer out
    \<and> sampleRate out = sampleRate b
    \<and> numberOfChannels out = numberOfChannels b
    \<and> (\<forall>c<numberOfChannels b. \<forall>j<nat (E - S).
          channels out ! c ! j = channels b ! c ! (nat S + j))
    \<and> \<bar>int (frames out) - round ((e - s) * real (sampleRate b))\<bar> \<le> 1
    \<and> \<bar>int (frames out) - round x'\<bar> \<le> 1
    \<and> (11 \<le> sampleRate b \<longrightarrow>
          S < E \<and> frames out = nat (E - S)
          \<and> (\<forall>c<numberOfChannels b.
               channels out ! c = take (nat (E - S)) (drop (nat S) (channels b ! c))))"
proof -
  from slice_in_range [OF assms] obtain S E x' where
    mfS: "math_floor (jmul (Num s) (Num (real (sampleRate b)))) = Num (of_int S)"
    and mfE: "math_floor (jmul (Num e) (Num (real (sampleRate b)))) = Num (of_int E)"
    and x': "jmul (jsub (Num e) (Num s)) (Num (real (sampleRate b))) = Num x'"
    and S0: "0 \<le> S" and SE: "S \<le> E" and EL: "E \<le> int (frames b)"
    and strict: "11 \<le> sampleRate b \<longrightarrow> S < E"
    and out: "sliceAudioBuffer b (Num s) (Num e) =
         Inr (if E \<le> S
              then \<lparr>sampleRate = sampleRate b, frames = 1,
                    channels = replicate (numberOfChannels b) [0]\<rparr>
              else \<lparr>sampleRate = sampleRate b, frames = nat (E - S),
                    channels = map (\<lambda>c. take (nat (E - S)) (drop (nat S) c)) (channels b)\<rparr>)"
    and tol: "\<bar>(if E \<le> S then 1 else E - S) - round ((e - s) * real (sampleRate b))\<bar> \<le> 1"
      "\<bar>(if E \<le> S then 1 else E - S) - round x'\<bar> \<le> 1"
    by blast
  from wf have n: "0 < numberOfChannels b" and r: "0 < sampleRate b"
    and lens: "\<And>c. c < numberOfChannels b \<Longrightarrow> length (channels b ! c) = frames b"
    by (simp_all add: wf_buffer_def numberOfChannels_def list_all_length)
  let ?P = "\<lambda>out. sliceAudioBuffer b (Num s) (Num e) = Inr out
    \<and> math_floor (jmul (Num s) (Num (real (sampleRate b)))) = Num (of_int S)
    \<and> math_floor (jmul (Num e) (Num (real (sampleRate b)))) = Num (of_int E)
    \<and> jmul (jsub (Num e) (Num s)) (Num (real (sampleRate b))) = Num x'
    \<and> 0 \<le> S \<and> S \<le> E \<and> E \<le> int (frames b)
    \<and> wf_buffer out
    \<and> sampleRate out = sampleRate b
    \<and> numberOfChannels out = numberOfChannels b
    \<and> (\<forall>c<numberOfChannels b. \<forall>j<nat (E - S).
          channels out ! c ! j = channels b ! c ! (nat S + j))
    \<and> \<bar>int (frames out) - round ((e - s) * real (sampleRate b))\<bar> \<le> 1
    \<and> \<bar>int (frames out) - round x'\<bar> \<le> 1
    \<and> (11 \<le> sampleRate b \<longrightarrow>
          S < E \<and> frames out = nat (E - S)
          \<and> (\<forall>c<numberOfChannels b.
               channels out ! c = take (nat (E - S)) (drop (nat S) (channels b ! c))))"
  show ?thesis
  proof (cases "E \<le> S")
    case True
    let ?out = "\<lparr>sampleRate = sampleRate b, frames = 1,
                    channels = replicate (numberOfChannels b) [0]\<rparr>"
    have wfo: "wf_buffer ?out"
      using n r by (simp add: wf_buffer_def list_all_length)
    from True SE have eq: "E = S" by simp
    have "?P ?out"
      using out True mfS mfE x' S0 SE EL strict tol wfo eq
      by (simp add: numberOfChannels_def)
    then show ?thesis by blast
  next
    case False
    let ?fc = "nat (E - S)"
    let ?out = "\<lparr>sampleRate = sampleRate b, frames = ?fc,
                    channels = map (\<lambda>c. take ?fc (drop (nat S) c)) (channels b)\<rparr>"
    have fit: "nat S + ?fc \<le> frames b" using S0 SE EL by linarith
    have wfo: "wf_buffer ?out"
      using wf False fit
      by (auto simp: wf_buffer_def list_all_length)
    have nth: "\<forall>c<numberOfChannels b. \<forall>j<?fc.
          channels ?out ! c ! j = channels b ! c ! (nat S + j)"
      using fit lens by (simp add: numberOfChannels_def)
    have full: "\<forall>c<numberOfChannels b.
          channels ?out ! c = take ?fc (drop (nat S) (channels b ! c))"
      by (simp add: numberOfChannels_def)
    have fr: "int (frames ?out) = E - S" using False by simp
    have "?P ?out"
      using out False mfS mfE x' S0 SE EL tol wfo nth full
      unfolding fr by (simp add: numberOfChannels_def)
    then show ?thesis by blast
  qed
qed

lemma demo_tone_facts:
  "wf_buffer demo_tone" "frames demo_tone < 2 ^ 32" "sampleRate demo_tone < 2 ^ 32"
  "buffer_duration demo_tone = Num 1"
proof -
  show "wf_buffer demo_tone" "frames demo_tone < 2 ^ 32" "sampleRate demo_tone < 2 ^ 32"
    by (simp_all add: wf_buffer_def demo_tone_def)
  have "round_double (of_int 1) = Num (of_int 1)" by (rule round_double_of_int) simp
  then show "buffer_duration demo_tone = Num 1"
    by (simp add: buffer_duration_def demo_tone_def)
qed

lemma demo_tone_products:
  "math_floor (jmul (Num (3/8)) (Num (real (sampleRate demo_tone)))) = Num (of_int 3000)"
  "math_floor (jmul (Num (5/8)) (Num (real (sampleRate demo_tone)))) = Num (of_int 5000)"
proof -
  have "round_double (of_int 3000) = Num (of_int 3000)" by (rule round_double_of_int) simp
  then show "math_floor (jmul (Num (3/8)) (Num (real (sampleRate demo_tone)))) = Num (of_int 3000)"
    by (simp add: demo_tone_def)
  have "round_double (of_int 5000) = Num (of_int 5000)" by (rule round_double_of_int) simp
  then show "math_floor (jmul (Num (5/8)) (Num (real (sampleRate demo_tone)))) = Num (of_int 5000)"
    by (simp add: demo_tone_def)
qed

theorem slice_frames_witness:
  "wf_buffer demo_tone \<and> frames demo_tone < 2 ^ 32 \<and> sampleRate demo_tone < 2 ^ 32
   \<and> (0::real) \<le> 3/8 \<and> jle (Num (5/8)) (buffer_duration demo_tone)
   \<and> (99/1000::real) \<le> 5/8 - 3/8
   \<and> (\<exists>out. sliceAudioBuffer demo_tone (Num (3/8)) (Num (5/8)) = Inr out
        \<and> sampleRate out = 8000 \<and> frames out = 2000
        \<and> channels out ! 0 = replicate 1000 (1/4) @ replicate 1000 (- 1/2))"
proof -
  have h: "(0::real) \<le> 3/8" "jle (Num (5/8)) (buffer_duration demo_tone)"
    "(99/1000::real) \<le> 5/8 - 3/8"
    by (simp_all add: demo_tone_facts jle_Num)
  from slice_frames [OF demo_tone_facts(1-3) h] obtain out S E where
    o: "sliceAudioBuffer demo_tone (Num (3/8)) (Num (5/8)) = Inr out"
    and mfS: "math_floor (jmul (Num (3/8)) (Num (real (sampleRate demo_tone)))) = Num (of_int S)"
    and mfE: "math_floor (jmul (Num (5/8)) (Num (real (sampleRate demo_tone)))) = Num (of_int E)"
    and sr: "sampleRate out = sampleRate demo_tone"
    and ex: "11 \<le> sampleRate demo_tone \<longrightarrow>
          S < E \<and> frames out = nat (E - S)
          \<and> (\<forall>c<numberOfChannels demo_tone.
               channels out ! c = take (nat (E - S)) (drop (nat S) (channels demo_tone ! c)))"
    by blast
  from mfS mfE have SE: "S = 3000" "E = 5000"
    unfolding demo_tone_products by simp_all
  from ex have "frames out = 2000"
    "channels out ! 0 = take 2000 (drop 3000 (channels demo_tone ! 0))"
    unfolding SE by (simp_all add: demo_tone_def numberOfChannels_def)
  then have "frames out = 2000"
    "channels out ! 0 = replicate 1000 (1/4) @ replicate 1000 (- 1/2)"
    by (simp_all add: demo_tone_def)
  with o sr demo_tone_facts h show ?thesis by (simp add: demo_tone_def)
qed

section \<open>Two doubles whose product rounds up\<close>

lemma quantum_in_binade:
  fixes x :: real
  assumes lo: "2 ^ k \<le> x" and hi: "x < 2 ^ (k + 1)"
  shows "quantum x = 2 ^ k / 2 ^ 52"
proof -
  have pos: "0 < x" using lo by (meson less_le_trans zero_less_numeral zero_less_power)
  have "2 powr real k \<le> x" using lo by (simp add: powr_realpow)
  then have a: "real k \<le> log 2 x" using pos by (simp add: le_log_iff)
  have "x < 2 powr real (k + 1)" using hi by (simp only: powr_realpow zero_less_numeral)
  then have b: "log 2 x < real (k + 1)" using pos by (simp add: log_less_iff)
  have "\<lfloor>log 2 x\<rfloor> = int k"
    using a b by (intro floor_unique) simp_all
  then have "quantum x = 2 powr (real k - 52)"
    using pos by (simp add: quantum_def max_def)
  also have "\<dots> = 2 powr real k / 2 powr 52" by (rule powr_diff)
  also have "\<dots> = 2 ^ k / 2 ^ 52" 
  proof -
    have "(2::real) powr 52 = 2 powr real 52" by simp
    also have "\<dots> = 2 ^ 52" by (simp only: powr_realpow zero_less_numeral)
    finally show ?thesis by (simp add: powr_realpow)
  qed
  finally show ?thesis .
qed

lemma rnd_in_binade:
  fixes x :: real
  assumes lo: "2 ^ k \<le> x" and hi: "x < 2 ^ (k + 1)"
    and m: "round_even (x * 2 ^ 52 / 2 ^ k) = m"
  shows "rnd x = of_int m * 2 ^ k / 2 ^ 52"
proof -
  have pos: "0 < x" using lo by (meson less_le_trans zero_less_numeral zero_less_power)
  have q: "quantum x = 2 ^ k / 2 ^ 52" using lo hi by (rule quantum_in_binade)
  have "x / (2 ^ k / 2 ^ 52) = x * 2 ^ 52 / 2 ^ k" by simp
  then have "round_even (x / quantum x) = m" unfolding q using m by simp
  then show ?thesis using pos by (simp add: rnd_def q)
qed

text \<open>
  The doubles nearest to 0.03 and 0.13, at 44100 Hz: the products round to 1323 and
  5733, where the exact product of the first lies just below 1323.
\<close>

lemma double_products_44100:
  "jmul (Num (1080863910568919 / 2 ^ 55)) (Num 44100) = Num 1323"
  "jmul (Num (1170935903116329 / 2 ^ 53)) (Num 44100) = Num 5733"
  "\<lfloor>1080863910568919 / 2 ^ 55 * 44100 :: real\<rfloor> = 1322"
proof -
  have "rnd (11916524614022331975 / 9007199254740992)
      = of_int 5818615534190592 * 2 ^ 10 / 2 ^ 52"
    by (rule rnd_in_binade) (simp_all add: round_even_def Let_def)
  then have x: "rnd (11916524614022331975 / 9007199254740992) = 1323" by simp
  have "(1080863910568919 / 2 ^ 55 * 44100 :: real) = 11916524614022331975 / 9007199254740992"
    by simp
  then show "jmul (Num (1080863910568919 / 2 ^ 55)) (Num 44100) = Num 1323"
    using x by (simp add: round_double_def Let_def)
  have "rnd (12909568331857527225 / 2251799813685248)
      = of_int 6303500162039808 * 2 ^ 12 / 2 ^ 52"
    by (rule rnd_in_binade) (simp_all add: round_even_def Let_def)
  then have y: "rnd (12909568331857527225 / 2251799813685248) = 5733" by simp
  have "(1170935903116329 / 2 ^ 53 * 44100 :: real) = 12909568331857527225 / 2251799813685248"
    by simp
  then show "jmul (Num (1170935903116329 / 2 ^ 53)) (Num 44100) = Num 5733"
    using y by (simp add: round_double_def Let_def)
  show "\<lfloor>1080863910568919 / 2 ^ 55 * 44100 :: real\<rfloor> = 1322" by simp
qed

lemma slice_44100_example:
  assumes wf: "wf_buffer b" and rate: "sampleRate b = 44100"
  shows "\<exists>out. sliceAudioBuffer b (Num (1080863910568919 / 2 ^ 55))
                  (Num (1170935903116329 / 2 ^ 53)) = Inr out
            \<and> frames out = 4410"
proof -
  have S: "math_floor (jmul (Num (1080863910568919 / 2 ^ 55)) (Num (real (sampleRate b))))
      = Num (of_int 1323)"
    and E: "math_floor (jmul (Num (1170935903116329 / 2 ^ 53)) (Num (real (sampleRate b))))
      = Num (of_int 5733)"
    unfolding rate using double_products_44100(1,2) by simp_all
  from slice_eval(2) [OF wf S E] show ?thesis by simp
qed

section \<open>Slice on times that are not finite\<close>

lemma slice_zero_fill:
  assumes j: "j < n" and k: "\<bar>S + int j\<bar> < 2 ^ 52"
    and out: "S + int j < 0 \<or> int (length cd) \<le> S + int j"
  shows "slice_samples cd (Num (of_int S)) n ! j = 0"
proof -
  let ?k = "S + int j"
  from k have "round_double (of_int ?k) = Num (of_int ?k)" by (rule round_double_of_int)
  then have "jadd (Num (of_int S)) (Num (real j)) = Num (of_int ?k)" by simp
  moreover have "typed_get_num cd (Num (of_int ?k)) = None"
    using out by (auto simp: typed_get_def)
  ultimately show ?thesis using j by (simp add: slice_samples_def or_zero_def)
qed

text \<open>
  C5. Slice is not total. The test \<open>frameCount <= 0\<close> is false for a frame count that
  is not a number, so an end time \<open>NaN\<close> or \<open>+Infinity\<close> passes the guard that returns
  the one-frame buffer: the count reaches \<open>createBuffer\<close>, the conversion to an unsigned
  integer makes it 0, and the host raises \<open>NotSupportedError\<close>. This is so for every
  buffer and every start time. (For finite products the guard works, lemma
  \<open>slice_eval\<close>, and a read outside the source gives zero, lemma \<open>slice_zero_fill\<close>.)
\<close>

theorem slice_not_a_number:
  "sliceAudioBuffer b start NaN = Inl NotSupportedError
   \<and> sliceAudioBuffer b start PInf = Inl NotSupportedError
   \<and> sliceAudioBuffer demo_tone (Num 0) NaN = Inl NotSupportedError"
proof -
  have fc: "\<And>n. jsub NaN n = NaN" by (simp add: jsub_def)
  have nan: "\<And>b start. sliceAudioBuffer b start NaN = Inl NotSupportedError"
    by (simp add: sliceAudioBuffer_def Let_def fc jle_def createBuffer_def)
  have e: "math_floor (jmul PInf (Num (real (sampleRate b)))) = NaN
      \<or> math_floor (jmul PInf (Num (real (sampleRate b)))) = PInf"
    by simp
  have "\<And>x. jsub NaN x = NaN \<or> jsub NaN x = PInf" by (simp add: jsub_def)
  moreover have "\<And>x. jsub PInf x = NaN \<or> jsub PInf x = PInf"
  proof -
    fix x show "jsub PInf x = NaN \<or> jsub PInf x = PInf"
      by (cases x) (simp_all add: jsub_def)
  qed
  ultimately have
    "jsub (math_floor (jmul PInf (Num (real (sampleRate b)))))
          (math_floor (jmul start (Num (real (sampleRate b))))) = NaN
     \<or> jsub (math_floor (jmul PInf (Num (real (sampleRate b)))))
          (math_floor (jmul start (Num (real (sampleRate b))))) = PInf"
    using e by metis
  then have "sliceAudioBuffer b start PInf = Inl NotSupportedError"
    unfolding sliceAudioBuffer_def Let_def
    by (auto simp: jle_def createBuffer_def)
  with nan show ?thesis by simp
qed

section \<open>Play from the stopped state\<close>

lemma jlt_Num: "jlt (Num a) (Num b) \<longleftrightarrow> a < b"
  by simp








section \<open>Identifiers in the registry\<close>

lemma handleCut_shape:
  "handleCut (Some af) sel now isoText cs = Inr cs' \<Longrightarrow>
   \<exists>c. cs' = cs @ [c] \<and> clip_id c = toString now"
  by (auto simp: handleCut_def Let_def split: sum.splits)

lemma handleCut_demo_track:
  "\<exists>c. handleCut (Some demo_track) \<lparr>sel_start = 3/8, sel_end = 5/8\<rparr> now isoText cs
          = Inr (cs @ [c])
     \<and> clip_id c = toString now \<and> frames (clip_buffer c) = 2000"
proof -
  let ?nb = "\<lparr>sampleRate = sampleRate demo_tone, frames = nat (5000 - 3000),
       channels = map (\<lambda>i. slice_samples (channels demo_tone ! i) (Num (of_int 3000))
                               (nat (5000 - 3000)))
                    [0..<numberOfChannels demo_tone]\<rparr>"
  have nb: "sliceAudioBuffer demo_tone (Num (3/8)) (Num (5/8)) = Inr ?nb"
    by (rule slice_eval(2) [OF demo_tone_facts(1) demo_tone_products]) simp_all
  from bufferToWav_total [of ?nb] obtain blob where blob: "bufferToWav ?nb = Inr blob"
    by blast
  show ?thesis
    unfolding handleCut_def Let_def using nb blob by (simp add: demo_track_def)
qed

lemma cut_times_append: "cut_times (evs @ evs') = cut_times evs @ cut_times evs'"
  by (induction evs rule: cut_times.induct) simp_all

lemma run_events_snoc: "run_events (evs @ [ev]) = apply_event ev (run_events evs)"
  by (simp add: run_events_def)

text \<open>Cuts at pairwise different clock readings give pairwise different identifiers.\<close>

lemma run_events_ids:
  "distinct (cut_times evs) \<Longrightarrow>
   distinct (map clip_id (run_events evs))
   \<and> set (map clip_id (run_events evs)) \<subseteq> toString ` set (cut_times evs)"
proof (induction evs rule: rev_induct)
  case Nil
  then show ?case by (simp add: run_events_def)
next
  case (snoc ev evs)
  let ?cs = "run_events evs"
  from snoc.prems have d: "distinct (cut_times evs)"
    by (simp add: cut_times_append)
  from snoc.IH [OF d] have ih: "distinct (map clip_id ?cs)"
    "set (map clip_id ?cs) \<subseteq> toString ` set (cut_times evs)" by simp_all
  show ?case
  proof (cases ev)
    case (Cut af sel now isoText)
    from snoc.prems have fresh: "now \<notin> set (cut_times evs)"
      by (simp add: cut_times_append Cut)
    have new: "toString now \<notin> set (map clip_id ?cs)"
    proof
      assume "toString now \<in> set (map clip_id ?cs)"
      with ih(2) obtain t where "t \<in> set (cut_times evs)" "toString now = toString t" by blast
      with fresh show False by (auto dest: toString_inj)
    qed
    show ?thesis
    proof (cases "handleCut (Some af) sel now isoText ?cs")
      case (Inl e)
      with ih show ?thesis
        by (auto simp: run_events_snoc Cut cut_times_append)
    next
      case (Inr cs')
      from handleCut_shape [OF this] obtain c where "cs' = ?cs @ [c]" "clip_id c = toString now"
        by blast
      with Inr ih new show ?thesis
        by (auto simp: run_events_snoc Cut cut_times_append)
    qed
  next
    case (Delete i)
    with ih show ?thesis
      by (auto simp: run_events_snoc cut_times_append deleteClip_def distinct_map_filter)
  next
    case (Rename i name)
    have "map clip_id (renameClip ?cs i name) = map clip_id ?cs"
      by (simp add: renameClip_def)
    with ih show ?thesis
      by (simp add: run_events_snoc Rename cut_times_append)
  qed
qed

text \<open>
  C7. The identifier of a new clip is the decimal text of the clock reading
  \<open>Date.now()\<close>, and nothing compares it with the identifiers in the registry. Two cuts
  that read the same millisecond from the clock leave two clips with one identifier in
  the registry; \<open>deleteClip\<close> and \<open>renameClip\<close> address a clip by its identifier, so
  one deletion then removes both.
\<close>

theorem cut_same_clock_reading:
  "\<exists>c1 c2.
      run_events
        [Cut demo_track \<lparr>sel_start = 3/8, sel_end = 5/8\<rparr> 1700000000000 ''2023-11-14T22:13:20.000Z'',
         Cut demo_track \<lparr>sel_start = 3/8, sel_end = 5/8\<rparr> 1700000000000 ''2023-11-14T22:13:20.000Z'']
        = [c1, c2]
    \<and> clip_id c1 = toString 1700000000000
    \<and> clip_id c2 = toString 1700000000000
    \<and> \<not> distinct (map clip_id [c1, c2])
    \<and> run_events
        [Cut demo_track \<lparr>sel_start = 3/8, sel_end = 5/8\<rparr> 1700000000000 ''2023-11-14T22:13:20.000Z'',
         Cut demo_track \<lparr>sel_start = 3/8, sel_end = 5/8\<rparr> 1700000000000 ''2023-11-14T22:13:20.000Z'',
         Delete (toString 1700000000000)]
        = []"
proof -
  let ?iso = "''2023-11-14T22:13:20.000Z''"
  let ?s = "\<lparr>sel_start = 3/8, sel_end = 5/8\<rparr>"
  from handleCut_demo_track [of 1700000000000 ?iso "[]"] obtain c1 where
    c1: "handleCut (Some demo_track) ?s 1700000000000 ?iso [] = Inr [c1]"
      "clip_id c1 = toString 1700000000000" by auto
  from handleCut_demo_track [of 1700000000000 ?iso "[c1]"] obtain c2 where
    c2: "handleCut (Some demo_track) ?s 1700000000000 ?iso [c1] = Inr [c1, c2]"
      "clip_id c2 = toString 1700000000000" by auto
  have two: "run_events [Cut demo_track ?s 1700000000000 ?iso, Cut demo_track ?s 1700000000000 ?iso]
      = [c1, c2]"
    using c1(1) c2(1) by (simp add: run_events_def)
  have three: "run_events [Cut demo_track ?s 1700000000000 ?iso,
      Cut demo_track ?s 1700000000000 ?iso, Delete (toString 1700000000000)] = []"
    using c1 c2 by (simp add: run_events_def deleteClip_def)
  have dup: "\<not> distinct (map clip_id [c1, c2])" using c1(2) c2(2) by simp
  have "run_events [Cut demo_track ?s 1700000000000 ?iso, Cut demo_track ?s 1700000000000 ?iso]
      = [c1, c2]
    \<and> clip_id c1 = toString 1700000000000
    \<and> clip_id c2 = toString 1700000000000
    \<and> \<not> distinct (map clip_id [c1, c2])
    \<and> run_events [Cut demo_track ?s 1700000000000 ?iso,
         Cut demo_track ?s 1700000000000 ?iso, Delete (toString 1700000000000)] = []"
    using two c1(2) c2(2) dup three by (intro conjI)
  then show ?thesis by blast
qed

end
